theory Spec2Isabelle
  imports Main "HOL-Library.Word"
begin

unbundle bit_operations_syntax

section \<open>Machine model\<close>

text \<open>
  The table engine of \<^verbatim>\<open>src/src/robin_table.c\<close>. A \<^verbatim>\<open>size_t\<close> is a natural number
  below \<open>2 ^ 64\<close> (the shift by 32 in \<^verbatim>\<open>robin_table_next_pow2\<close> fixes the width); every
  addition, subtraction and multiplication of the source that is done on \<^verbatim>\<open>size_t\<close> is
  written with its wrap-around. A \<^verbatim>\<open>void*\<close> value is an address, \<open>0\<close> being \<^verbatim>\<open>NULL\<close>.
  A key argument \<^verbatim>\<open>(key, klen)\<close> is the list of the bytes the pointer refers to, together
  with the length the caller passes; a stored key pointer is \<open>None\<close> when it is \<^verbatim>\<open>NULL\<close>.
\<close>

type_synonym byte = "8 word"
type_synonym hash_fn = "byte list \<Rightarrow> nat \<Rightarrow> 64 word \<Rightarrow> 64 word"

definition NULL :: nat where
  "NULL = 0"

definition sz_add :: "nat \<Rightarrow> nat \<Rightarrow> nat" where
  "sz_add a b = (a + b) mod 2 ^ 64"

definition sz_sub :: "nat \<Rightarrow> nat \<Rightarrow> nat" where
  "sz_sub a b = (a + 2 ^ 64 - b mod 2 ^ 64) mod 2 ^ 64"

definition sz_mul :: "nat \<Rightarrow> nat \<Rightarrow> nat" where
  "sz_mul a b = (a * b) mod 2 ^ 64"

definition RT_BUCKET_COUNT_MIN :: nat where
  "RT_BUCKET_COUNT_MIN = 32"

definition RT_LOAD_FACTOR_PCT_MAX :: nat where
  "RT_LOAD_FACTOR_PCT_MAX = 75"

definition RT_LOAD_FACTOR_PCT_MIN :: nat where
  "RT_LOAD_FACTOR_PCT_MIN = 25"

record robin_bucket_t =
  key :: "byte list option"
  val :: nat
  psl :: nat
  klen :: nat
  hash :: "64 word"

record robin_table_t =
  buckets :: "robin_bucket_t list"
  count :: nat
  bucket_count :: nat
  init_buckets :: nat
  mask_rt :: nat
  expand_at :: nat
  shrink_at :: nat
  seed :: "64 word"
  hash_func :: hash_fn

text \<open>A slot as \<^verbatim>\<open>calloc\<close> and \<^verbatim>\<open>memset(.., 0, ..)\<close> leave it.\<close>

definition zero_bucket :: robin_bucket_t where
  "zero_bucket = \<lparr>key = None, val = 0, psl = 0, klen = 0, hash = 0\<rparr>"

text \<open>
  \<^verbatim>\<open>sizeof(robin_bucket_t)\<close>: five 8-byte fields. An allocation succeeds only when the
  system grants it (the flag) and, for \<^verbatim>\<open>calloc\<close>, when the byte count fits \<^verbatim>\<open>size_t\<close>.
\<close>

definition sizeof_bucket :: nat where
  "sizeof_bucket = 40"

definition calloc_buckets :: "bool \<Rightarrow> nat \<Rightarrow> robin_bucket_t list option" where
  "calloc_buckets ok n =
     (if ok \<and> n * sizeof_bucket < 2 ^ 64 then Some (replicate n zero_bucket) else None)"

definition memset_zero :: "robin_bucket_t list \<Rightarrow> nat \<Rightarrow> robin_bucket_t list" where
  "memset_zero bs n = replicate (min n (length bs)) zero_bucket @ drop n bs"

subsection \<open>Capacity policy\<close>

definition robin_table_next_pow2 :: "nat \<Rightarrow> nat" where
  "robin_table_next_pow2 n0 =
     (let n = sz_sub n0 1;
          n = n OR drop_bit 1 n;
          n = n OR drop_bit 2 n;
          n = n OR drop_bit 4 n;
          n = n OR drop_bit 8 n;
          n = n OR drop_bit 16 n;
          n = n OR drop_bit 32 n
      in sz_add n 1)"

definition robin_table_calc_bucket_count :: "nat \<Rightarrow> nat" where
  "robin_table_calc_bucket_count cnt =
     (let bucket_count = sz_mul cnt 100 div RT_LOAD_FACTOR_PCT_MAX
      in if bucket_count < RT_BUCKET_COUNT_MIN then RT_BUCKET_COUNT_MIN
         else robin_table_next_pow2 bucket_count)"

text \<open>
  \<^verbatim>\<open>robin_table_create\<close>: \<open>None\<close> is the \<^verbatim>\<open>NULL\<close> it returns when one of its two
  allocations fails. The default hash function \<^verbatim>\<open>RT_HASH_FUNC_DEFAULT\<close> is a parameter.
\<close>

definition robin_table_create ::
  "bool \<Rightarrow> bool \<Rightarrow> hash_fn \<Rightarrow> nat \<Rightarrow> hash_fn option \<Rightarrow> 64 word \<Rightarrow> robin_table_t option" where
  "robin_table_create ok_rt ok_buckets dflt cnt hf sd =
     (if \<not> ok_rt then None
      else let bc = robin_table_calc_bucket_count cnt in
        case calloc_buckets ok_buckets bc of
          None \<Rightarrow> None
        | Some bs \<Rightarrow>
            Some \<lparr>buckets = bs, count = 0, bucket_count = bc, init_buckets = bc,
                  mask_rt = sz_sub bc 1,
                  expand_at = sz_mul bc RT_LOAD_FACTOR_PCT_MAX div 100,
                  shrink_at = sz_mul bc RT_LOAD_FACTOR_PCT_MIN div 100,
                  seed = sd,
                  hash_func = (case hf of None \<Rightarrow> dflt | Some f \<Rightarrow> f)\<rparr>)"

subsection \<open>Probe engine\<close>

text \<open>
  The key comparison of \<^verbatim>\<open>put0\<close> and \<^verbatim>\<open>get_bucket\<close>:
  \<^verbatim>\<open>bucket->hash == hash && bucket->klen == klen && memcmp(bucket->key, key, klen) == 0\<close>.
  The \<^verbatim>\<open>memcmp\<close> is reached only past the first two tests; on a \<^verbatim>\<open>NULL\<close> stored key it
  has no defined result, which is \<open>None\<close> here.
\<close>

definition memcmp_eq :: "byte list \<Rightarrow> byte list \<Rightarrow> nat \<Rightarrow> bool" where
  "memcmp_eq a b n = (take n a = take n b)"

definition key_match :: "robin_bucket_t \<Rightarrow> 64 word \<Rightarrow> byte list \<Rightarrow> nat \<Rightarrow> bool option" where
  "key_match b h k n =
     (if hash b = h \<and> klen b = n
      then (case key b of None \<Rightarrow> None | Some bk \<Rightarrow> Some (memcmp_eq bk k n))
      else Some False)"

text \<open>
  The loop of \<^verbatim>\<open>robin_table_put0\<close>. A result \<open>None\<close> of a loop means that the C call does
  not return: the loop runs forever, or it reads outside the bucket array.
\<close>

partial_function (option) put0_loop ::
  "robin_table_t \<Rightarrow> byte list \<Rightarrow> nat \<Rightarrow> nat \<Rightarrow> 64 word \<Rightarrow> nat \<Rightarrow> robin_bucket_t
     \<Rightarrow> (nat \<times> robin_table_t) option" where
  [code]: "put0_loop rt k n v h idx entry =
     (if length (buckets rt) \<le> idx then None
      else let bucket = buckets rt ! idx in
        if key bucket = None
        then Some (v, rt\<lparr>buckets := (buckets rt)[idx := entry], count := sz_add (count rt) 1\<rparr>)
        else case key_match bucket h k n of
          None \<Rightarrow> None
        | Some same \<Rightarrow>
            if same then Some (val bucket, rt)
            else if psl bucket < psl entry
            then put0_loop (rt\<lparr>buckets := (buckets rt)[idx := entry]\<rparr>) k n v h
                   (sz_add idx 1 AND mask_rt rt) (bucket\<lparr>psl := sz_add (psl bucket) 1\<rparr>)
            else put0_loop rt k n v h
                   (sz_add idx 1 AND mask_rt rt) (entry\<lparr>psl := sz_add (psl entry) 1\<rparr>))"

definition robin_table_put0 ::
  "robin_table_t \<Rightarrow> byte list \<Rightarrow> nat \<Rightarrow> nat \<Rightarrow> (nat \<times> robin_table_t) option" where
  "robin_table_put0 rt k n v =
     (let h = hash_func rt k n (seed rt);
          idx = unat h AND mask_rt rt;
          entry = \<lparr>key = Some k, val = v, psl = 0, klen = n, hash = h\<rparr>
      in put0_loop rt k n v h idx entry)"

text \<open>The reinsertion loop of \<^verbatim>\<open>robin_table_resize\<close> over the old bucket array.\<close>

fun reinsert :: "robin_table_t \<Rightarrow> robin_bucket_t list \<Rightarrow> robin_table_t option" where
  "reinsert rt [] = Some rt"
| "reinsert rt (b # bs) =
     (case key b of
        None \<Rightarrow> reinsert rt bs
      | Some k \<Rightarrow>
          (case robin_table_put0 rt k (klen b) (val b) of
             None \<Rightarrow> None
           | Some (r, rt') \<Rightarrow> reinsert rt' bs))"

text \<open>
  \<^verbatim>\<open>robin_table_resize\<close>: \<open>None\<close> when one of its two assertions fails (the process
  aborts) or a reinsertion does not return; otherwise the flag it returns and the table.
\<close>

definition robin_table_resize ::
  "bool \<Rightarrow> robin_table_t \<Rightarrow> nat \<Rightarrow> (bool \<times> robin_table_t) option" where
  "robin_table_resize ok rt bc =
     (if (bc AND sz_sub bc 1) \<noteq> 0 \<or> \<not> count rt < bc then None
      else case calloc_buckets ok bc of
        None \<Rightarrow> Some (False, rt)
      | Some new_buckets \<Rightarrow>
          (case reinsert
                  (rt\<lparr>buckets := new_buckets, count := 0, bucket_count := bc,
                       mask_rt := sz_sub bc 1,
                       expand_at := sz_mul bc RT_LOAD_FACTOR_PCT_MAX div 100,
                       shrink_at := sz_mul bc RT_LOAD_FACTOR_PCT_MIN div 100\<rparr>)
                  (take (bucket_count rt) (buckets rt)) of
             None \<Rightarrow> None
           | Some rt' \<Rightarrow> Some (True, rt')))"

text \<open>
  \<^verbatim>\<open>robin_table_put\<close>; the flag says whether the allocation of a growth, if the call makes
  one, succeeds. \<open>None\<close>: the assertion on the key fails, or a callee does not return.
\<close>

definition robin_table_put ::
  "bool \<Rightarrow> robin_table_t \<Rightarrow> byte list \<Rightarrow> nat \<Rightarrow> nat \<Rightarrow> (nat \<times> robin_table_t) option" where
  "robin_table_put ok rt k n v =
     (if n = 0 then None
      else if expand_at rt \<le> count rt
      then (case robin_table_resize ok rt (sz_mul (bucket_count rt) 2) of
              None \<Rightarrow> None
            | Some (resized, rt') \<Rightarrow>
                if \<not> resized then Some (NULL, rt') else robin_table_put0 rt' k n v)
      else robin_table_put0 rt k n v)"

text \<open>
  The loop of \<^verbatim>\<open>robin_table_get_bucket\<close>; the bucket it returns is given by its index,
  \<open>Some None\<close> is the \<^verbatim>\<open>NULL\<close> it returns when the key is not found.
\<close>

partial_function (option) get_bucket_loop ::
  "robin_table_t \<Rightarrow> byte list \<Rightarrow> nat \<Rightarrow> 64 word \<Rightarrow> nat \<Rightarrow> nat \<Rightarrow> nat option option" where
  [code]: "get_bucket_loop rt k n h idx p =
     (if length (buckets rt) \<le> idx then None
      else let bucket = buckets rt ! idx in
        case key_match bucket h k n of
          None \<Rightarrow> None
        | Some same \<Rightarrow>
            if same then Some (Some idx)
            else if key bucket = None \<or> psl bucket < p then Some None
            else get_bucket_loop rt k n h (sz_add idx 1 AND mask_rt rt) (sz_add p 1))"

definition robin_table_get_bucket ::
  "robin_table_t \<Rightarrow> byte list \<Rightarrow> nat \<Rightarrow> nat option option" where
  "robin_table_get_bucket rt k n =
     (let h = hash_func rt k n (seed rt) in
      get_bucket_loop rt k n h (unat h AND mask_rt rt) 0)"

definition robin_table_get :: "robin_table_t \<Rightarrow> byte list \<Rightarrow> nat \<Rightarrow> nat option" where
  "robin_table_get rt k n =
     (if n = 0 then None
      else case robin_table_get_bucket rt k n of
        None \<Rightarrow> None
      | Some None \<Rightarrow> Some NULL
      | Some (Some i) \<Rightarrow> Some (val (buckets rt ! i)))"

text \<open>
  The backward-shift loop of \<^verbatim>\<open>robin_table_del\<close>: \<open>bucket\<close> is the index of the slot the
  pointer \<^verbatim>\<open>bucket\<close> refers to, \<open>idx\<close> the loop's index.
\<close>

partial_function (option) del_shift ::
  "robin_table_t \<Rightarrow> nat \<Rightarrow> nat \<Rightarrow> robin_table_t option" where
  [code]: "del_shift rt bucket idx0 =
     (let idx = sz_add idx0 1 AND mask_rt rt in
      if length (buckets rt) \<le> idx \<or> length (buckets rt) \<le> bucket then None
      else let next_bucket = buckets rt ! idx in
        if key next_bucket = None \<or> psl next_bucket = 0
        then Some (rt\<lparr>buckets := (buckets rt)[bucket := zero_bucket],
                       count := sz_sub (count rt) 1\<rparr>)
        else let bs1 = (buckets rt)[idx := next_bucket\<lparr>psl := sz_sub (psl next_bucket) 1\<rparr>];
                 bs2 = bs1[bucket := bs1 ! idx]
             in del_shift (rt\<lparr>buckets := bs2\<rparr>) idx idx)"

definition robin_table_del ::
  "bool \<Rightarrow> robin_table_t \<Rightarrow> byte list \<Rightarrow> nat \<Rightarrow> (nat \<times> robin_table_t) option" where
  "robin_table_del ok rt k n =
     (if n = 0 then None
      else case robin_table_get_bucket rt k n of
        None \<Rightarrow> None
      | Some None \<Rightarrow> Some (NULL, rt)
      | Some (Some i) \<Rightarrow>
          (let v = val (buckets rt ! i) in
           case del_shift rt i i of
             None \<Rightarrow> None
           | Some rt1 \<Rightarrow>
               if init_buckets rt1 < bucket_count rt1 \<and> count rt1 \<le> shrink_at rt1
               then (case robin_table_resize ok rt1 (drop_bit 1 (bucket_count rt1)) of
                       None \<Rightarrow> None
                     | Some (resized, rt2) \<Rightarrow> Some (v, rt2))
               else Some (v, rt1)))"

text \<open>
  \<^verbatim>\<open>robin_table_clear\<close>; the flag says whether its \<^verbatim>\<open>malloc\<close> succeeds. The new array
  has as many slots as fit the byte count the source computes.
\<close>

definition robin_table_clear :: "bool \<Rightarrow> robin_table_t \<Rightarrow> bool \<Rightarrow> bool \<times> robin_table_t" where
  "robin_table_clear ok rt update_buckets =
     (if update_buckets
      then (if \<not> ok then (False, rt)
            else let new_buckets =
                       replicate (sz_mul (init_buckets rt) sizeof_bucket div sizeof_bucket)
                         zero_bucket;
                     rt1 = rt\<lparr>buckets := new_buckets, bucket_count := init_buckets rt,
                              mask_rt := sz_sub (init_buckets rt) 1,
                              expand_at := sz_mul (init_buckets rt) RT_LOAD_FACTOR_PCT_MAX div 100,
                              shrink_at := sz_mul (init_buckets rt) RT_LOAD_FACTOR_PCT_MIN div 100\<rparr>
                 in (True, rt1\<lparr>count := 0,
                                buckets := memset_zero (buckets rt1) (bucket_count rt1)\<rparr>))
      else (True, rt\<lparr>count := 0, buckets := memset_zero (buckets rt) (bucket_count rt)\<rparr>))"

definition robin_table_count :: "robin_table_t \<Rightarrow> nat" where
  "robin_table_count rt = count rt"

section \<open>Invariants\<close>

text \<open>
  The state invariant \<open>rt_inv\<close>: the bucket array has \<open>bucket_count\<close> slots, a power of two
  whose byte size fits \<^verbatim>\<open>size_t\<close>; mask and thresholds are the ones \<^verbatim>\<open>robin_table_create\<close>
  and \<^verbatim>\<open>robin_table_resize\<close> compute from it; \<open>count\<close> is the number of occupied slots and
  leaves a slot free; an empty slot is all zero; an occupied slot caches the hash and the
  length of its key and stands \<open>psl\<close> slots after the ideal slot of its hash (\<open>wf_slots\<close>); an
  entry away from home follows an occupied slot whose \<open>psl\<close> is at most one less
  (\<open>rh_ordered\<close>); no key is in two slots. Every table \<^verbatim>\<open>robin_table_create\<close> returns
  satisfies it and every public call keeps it, which is proved below.
\<close>

definition occupied :: "robin_bucket_t \<Rightarrow> bool" where
  "occupied b \<longleftrightarrow> key b \<noteq> None"

definition slot_ok :: "hash_fn \<Rightarrow> 64 word \<Rightarrow> nat \<Rightarrow> nat \<Rightarrow> robin_bucket_t \<Rightarrow> bool" where
  "slot_ok hf sd n i b \<longleftrightarrow>
     (case key b of
        None \<Rightarrow> b = zero_bucket
      | Some k \<Rightarrow> k \<noteq> [] \<and> klen b = length k \<and> hash b = hf k (length k) sd \<and>
                 psl b < n \<and> (unat (hash b) + psl b) mod n = i)"

definition wf_slots :: "hash_fn \<Rightarrow> 64 word \<Rightarrow> robin_bucket_t list \<Rightarrow> bool" where
  "wf_slots hf sd bs \<longleftrightarrow> (\<forall>i<length bs. slot_ok hf sd (length bs) i (bs ! i))"

definition rh_ordered :: "robin_bucket_t list \<Rightarrow> bool" where
  "rh_ordered bs \<longleftrightarrow>
     (\<forall>i<length bs.
        occupied (bs ! ((i + 1) mod length bs)) \<and> 0 < psl (bs ! ((i + 1) mod length bs))
        \<longrightarrow> occupied (bs ! i) \<and> psl (bs ! ((i + 1) mod length bs)) \<le> psl (bs ! i) + 1)"

definition distinct_keys :: "robin_bucket_t list \<Rightarrow> bool" where
  "distinct_keys bs \<longleftrightarrow>
     (\<forall>i<length bs. \<forall>j<length bs. occupied (bs ! i) \<and> key (bs ! i) = key (bs ! j) \<longrightarrow> i = j)"

definition is_pow2 :: "nat \<Rightarrow> bool" where
  "is_pow2 n \<longleftrightarrow> (\<exists>k. n = 2 ^ k)"

definition rt_inv :: "robin_table_t \<Rightarrow> bool" where
  "rt_inv rt \<longleftrightarrow>
     length (buckets rt) = bucket_count rt \<and>
     is_pow2 (bucket_count rt) \<and>
     bucket_count rt * sizeof_bucket < 2 ^ 64 \<and>
     is_pow2 (init_buckets rt) \<and>
     init_buckets rt \<le> bucket_count rt \<and>
     mask_rt rt = bucket_count rt - 1 \<and>
     expand_at rt = sz_mul (bucket_count rt) RT_LOAD_FACTOR_PCT_MAX div 100 \<and>
     shrink_at rt = sz_mul (bucket_count rt) RT_LOAD_FACTOR_PCT_MIN div 100 \<and>
     count rt = length (filter occupied (buckets rt)) \<and>
     count rt < bucket_count rt \<and>
     wf_slots (hash_func rt) (seed rt) (buckets rt) \<and>
     rh_ordered (buckets rt) \<and>
     distinct_keys (buckets rt)"

section \<open>Abstraction and auxiliary notions\<close>

text \<open>
  The part of the invariant that lookup depends on: it leaves out the entry count and the
  thresholds.
\<close>

definition rt_core :: "robin_table_t \<Rightarrow> bool" where
  "rt_core rt \<longleftrightarrow>
     length (buckets rt) = bucket_count rt \<and>
     is_pow2 (bucket_count rt) \<and>
     bucket_count rt * sizeof_bucket < 2 ^ 64 \<and>
     mask_rt rt = bucket_count rt - 1 \<and>
     wf_slots (hash_func rt) (seed rt) (buckets rt) \<and>
     rh_ordered (buckets rt) \<and>
     distinct_keys (buckets rt)"

text \<open>
  The table as a finite map: the value stored with a key is the value of the first slot
  that holds the key (with distinct keys, of the only one).
\<close>

fun find_slot :: "robin_bucket_t list \<Rightarrow> byte list \<Rightarrow> nat option" where
  "find_slot [] k = None"
| "find_slot (b # bs) k = (if key b = Some k then Some 0 else map_option Suc (find_slot bs k))"

definition contents :: "robin_table_t \<Rightarrow> byte list \<Rightarrow> nat option" where
  "contents rt k = map_option (\<lambda>i. val (buckets rt ! i)) (find_slot (buckets rt) k)"

text \<open>
  \<open>has bs k v\<close>: some slot of \<open>bs\<close> binds \<open>k\<close> to \<open>v\<close>. \<open>carried_ok\<close> is the loop invariant
  of \<^verbatim>\<open>robin_table_put0\<close> for the entry in hand: it is a proper entry whose key is in no
  slot, it stands at distance \<open>psl\<close> of its ideal slot, and every slot it has passed is
  occupied by an entry at least as far from home.
\<close>

definition has :: "robin_bucket_t list \<Rightarrow> byte list \<Rightarrow> nat \<Rightarrow> bool" where
  "has bs k v \<longleftrightarrow> (\<exists>i<length bs. key (bs ! i) = Some k \<and> val (bs ! i) = v)"

definition carried_ok ::
  "hash_fn \<Rightarrow> 64 word \<Rightarrow> robin_bucket_t list \<Rightarrow> nat \<Rightarrow> robin_bucket_t \<Rightarrow> bool" where
  "carried_ok hf sd bs idx e \<longleftrightarrow>
     (\<exists>ke. key e = Some ke \<and> ke \<noteq> [] \<and> klen e = length ke \<and> hash e = hf ke (length ke) sd) \<and>
     (unat (hash e) + psl e) mod length bs = idx \<and>
     (\<forall>d<psl e. occupied (bs ! ((unat (hash e) + d) mod length bs)) \<and>
                 d \<le> psl (bs ! ((unat (hash e) + d) mod length bs))) \<and>
     (\<forall>j<length bs. key (bs ! j) \<noteq> key e)"

text \<open>
  The bucket array \<open>bs'\<close> is the array of \<open>rt\<close> with the entry \<open>e\<close> added.
\<close>

definition inserted :: "robin_table_t \<Rightarrow> robin_bucket_t \<Rightarrow> robin_bucket_t list \<Rightarrow> bool" where
  "inserted rt e bs' \<longleftrightarrow>
     length bs' = bucket_count rt \<and>
     wf_slots (hash_func rt) (seed rt) bs' \<and> rh_ordered bs' \<and> distinct_keys bs' \<and>
     (\<forall>k' v'. has bs' k' v' \<longleftrightarrow> has (buckets rt) k' v' \<or> (key e = Some k' \<and> val e = v')) \<and>
     length (filter occupied bs') = Suc (length (filter occupied (buckets rt)))"

text \<open>
  Two tables of the same capacity, initial capacity, seed and hash function.
\<close>

definition same_config :: "robin_table_t \<Rightarrow> robin_table_t \<Rightarrow> bool" where
  "same_config rt rt' \<longleftrightarrow>
     bucket_count rt' = bucket_count rt \<and> init_buckets rt' = init_buckets rt \<and>
     seed rt' = seed rt \<and> hash_func rt' = hash_func rt"

text \<open>
  The table \<^verbatim>\<open>robin_table_resize\<close> starts the reinsertion from.
\<close>

definition empty_table :: "robin_table_t \<Rightarrow> nat \<Rightarrow> robin_bucket_t list \<Rightarrow> robin_table_t" where
  "empty_table rt bc new_buckets =
     rt\<lparr>buckets := new_buckets, count := 0, bucket_count := bc, mask_rt := sz_sub bc 1,
        expand_at := sz_mul bc RT_LOAD_FACTOR_PCT_MAX div 100,
        shrink_at := sz_mul bc RT_LOAD_FACTOR_PCT_MIN div 100\<rparr>"

text \<open>
  The shape of the bucket array alone; \<open>shifted_by bs b m bs'\<close> says that \<open>bs'\<close> is \<open>bs\<close> after a
  backward shift from slot \<open>b\<close> that moved \<open>m\<close> entries: slot \<open>b + t\<close> holds the entry of
  slot \<open>b + t + 1\<close> with its \<open>psl\<close> decremented for \<open>t < m\<close>, slot \<open>b + m\<close> is zeroed, every
  other slot is as before (indices modulo the capacity).
\<close>

definition rt_struct :: "robin_table_t \<Rightarrow> bool" where
  "rt_struct rt \<longleftrightarrow>
     length (buckets rt) = bucket_count rt \<and> is_pow2 (bucket_count rt) \<and>
     bucket_count rt * sizeof_bucket < 2 ^ 64 \<and> mask_rt rt = bucket_count rt - 1"

definition dec_psl :: "robin_bucket_t \<Rightarrow> robin_bucket_t" where
  "dec_psl x = x\<lparr>psl := psl x - 1\<rparr>"

definition shifted_by ::
  "robin_bucket_t list \<Rightarrow> nat \<Rightarrow> nat \<Rightarrow> robin_bucket_t list \<Rightarrow> bool" where
  "shifted_by bs b m bs' \<longleftrightarrow>
     length bs' = length bs \<and>
     (\<forall>t<length bs.
        bs' ! ((b + t) mod length bs) =
          (if t < m then dec_psl (bs ! ((b + Suc t) mod length bs))
           else if t = m then zero_bucket
           else bs ! ((b + t) mod length bs)))"

text \<open>Where the content of slot \<open>b + t\<close> comes from after a backward shift of \<open>m\<close> entries.\<close>

definition src :: "nat \<Rightarrow> nat \<Rightarrow> nat" where
  "src m t = (if t < m then Suc t else t)"

subsection \<open>The capacity policy as the specification words it\<close>

text \<open>
  \<open>target_capacity\<close> follows the words of the specification, not the code: the raw
  count is the ceiling of \<open>n * 100 / 75\<close>, the result is 32 when the raw count is below 32
  and the least power of two not below the raw count otherwise. \<open>next_pow2_ge\<close> is that
  least power of two, by halving.
\<close>

fun next_pow2_ge :: "nat \<Rightarrow> nat" where
  "next_pow2_ge x = (if x \<le> 1 then 1 else 2 * next_pow2_ge ((x + 1) div 2))"

definition target_capacity :: "nat \<Rightarrow> nat" where
  "target_capacity n =
     (let raw = (n * 100 + 74) div 75
      in if raw < 32 then 32 else next_pow2_ge raw)"

declare next_pow2_ge.simps [simp del]

text \<open>The bit smearing of \<open>robin_table_next_pow2\<close>.\<close>

definition top_bits :: "nat \<Rightarrow> nat \<Rightarrow> nat \<Rightarrow> bool" where
  "top_bits L t n \<longleftrightarrow> (\<forall>i. bit n i \<longrightarrow> i < L) \<and> (\<forall>i. L - t \<le> i \<and> i < L \<longrightarrow> bit n i)"

section \<open>Sequences of public operations\<close>

text \<open>
  A call of the public interface, with the outcome of the allocation it may make: \<open>Put ok k n v\<close>
  is \<^verbatim>\<open>robin_table_put(rt, k, n, v)\<close> where \<open>ok\<close> says whether \<^verbatim>\<open>calloc\<close> succeeds, and so on.
  \<open>run_ops\<close> runs a sequence of calls and records what each returned and the entry count
  after it; \<open>op_ok\<close> is the precondition the source asserts (a key of the stated, nonzero
  length); \<open>touches k x\<close> says that the call \<open>x\<close> names the key \<open>k\<close> or clears the table.
\<close>

datatype rt_op =
  Put bool "byte list" nat nat
| Get "byte list" nat
| Del bool "byte list" nat
| Clear bool bool

datatype rt_result = Value nat | Flag bool

fun apply_op :: "robin_table_t \<Rightarrow> rt_op \<Rightarrow> (rt_result \<times> robin_table_t) option" where
  "apply_op rt (Put ok k n v) =
     (case robin_table_put ok rt k n v of None \<Rightarrow> None | Some (r, rt') \<Rightarrow> Some (Value r, rt'))"
| "apply_op rt (Get k n) =
     (case robin_table_get rt k n of None \<Rightarrow> None | Some r \<Rightarrow> Some (Value r, rt))"
| "apply_op rt (Del ok k n) =
     (case robin_table_del ok rt k n of None \<Rightarrow> None | Some (r, rt') \<Rightarrow> Some (Value r, rt'))"
| "apply_op rt (Clear ok ub) =
     (case robin_table_clear ok rt ub of (r, rt') \<Rightarrow> Some (Flag r, rt'))"

fun run_ops ::
  "robin_table_t \<Rightarrow> rt_op list \<Rightarrow> ((rt_result \<times> nat) list \<times> robin_table_t) option" where
  "run_ops rt [] = Some ([], rt)"
| "run_ops rt (x # xs) =
     (case apply_op rt x of
        None \<Rightarrow> None
      | Some (r, rt') \<Rightarrow>
          (case run_ops rt' xs of
             None \<Rightarrow> None
           | Some (obs, rt'') \<Rightarrow> Some ((r, robin_table_count rt') # obs, rt'')))"

fun op_ok :: "rt_op \<Rightarrow> bool" where
  "op_ok (Put ok k n v) = (n = length k \<and> k \<noteq> [])"
| "op_ok (Get k n) = (n = length k \<and> k \<noteq> [])"
| "op_ok (Del ok k n) = (n = length k \<and> k \<noteq> [])"
| "op_ok (Clear ok ub) = True"

fun touches :: "byte list \<Rightarrow> rt_op \<Rightarrow> bool" where
  "touches k (Put ok k' n v) = (k' = k)"
| "touches k (Get k' n) = (k' = k)"
| "touches k (Del ok k' n) = (k' = k)"
| "touches k (Clear ok ub) = True"

text \<open>
  Two valid tables with the same contents and capacities, whatever their hash functions,
  seeds and slot layouts.
\<close>

definition sim :: "robin_table_t \<Rightarrow> robin_table_t \<Rightarrow> bool" where
  "sim a b \<longleftrightarrow> rt_inv a \<and> rt_inv b \<and> contents a = contents b \<and>
     bucket_count a = bucket_count b \<and> init_buckets a = init_buckets b"

section \<open>Concrete tables\<close>

text \<open>
  Two hash functions for concrete runs: the first byte of the key, and the constant 0.
  \<open>table0\<close> is \<^verbatim>\<open>robin_table_create(0, NULL, 0)\<close> with \<open>first_byte_hash\<close> as the default
  hash; \<open>table2\<close> holds the keys 1 and 33, which share the ideal slot 1.
\<close>

definition first_byte_hash :: hash_fn where
  "first_byte_hash k n s = (case k of [] \<Rightarrow> 0 | b # bs \<Rightarrow> ucast b)"

definition table0 :: robin_table_t where
  "table0 = the (robin_table_create True True first_byte_hash 0 None 0)"

definition table2 :: robin_table_t where
  "table2 = snd (the (robin_table_put True (snd (the (robin_table_put True table0 [1] 1 5))) [33] 1 7))"

definition zero_hash :: hash_fn where
  "zero_hash k n s = 0"

definition table1 :: robin_table_t where
  "table1 = snd (the (robin_table_put True table0 [1] 1 5))"

definition tableZ :: robin_table_t where
  "tableZ = the (robin_table_create True True first_byte_hash 0 (Some zero_hash) 7)"

text \<open>
  \<open>fill rt i\<close>: the table after \<open>i\<close> calls of \<^verbatim>\<open>robin_table_put\<close> with the keys \<open>[0]\<close>,
  \<open>[0, 0]\<close>, ... and the values 100, 101, ...; \<open>table24\<close> is \<open>table0\<close> filled up to its growth
  threshold.
\<close>

fun fill :: "robin_table_t \<Rightarrow> nat \<Rightarrow> robin_table_t" where
  "fill rt 0 = rt"
| "fill rt (Suc i) =
     snd (the (robin_table_put True (fill rt i) (replicate (Suc i) 0) (Suc i) (100 + i)))"

definition table24 :: robin_table_t where
  "table24 = fill table0 24"

text \<open>
  The displacement recorded in every occupied slot is its distance from the ideal slot of
  its cached hash, and the cached hash is the hash of its key.
\<close>

definition psl_invariant :: "robin_table_t \<Rightarrow> bool" where
  "psl_invariant rt \<longleftrightarrow>
     (\<forall>i<bucket_count rt. key (buckets rt ! i) \<noteq> None \<longrightarrow>
        int (psl (buckets rt ! i)) =
          (int i - int (unat (hash (buckets rt ! i)) AND mask_rt rt)) mod int (bucket_count rt) \<and>
        (\<exists>k. key (buckets rt ! i) = Some k \<and>
             hash (buckets rt ! i) = hash_func rt k (klen (buckets rt ! i)) (seed rt)))"

text \<open>
  \<^verbatim>\<open>robin_table_put\<close> has to grow the table and the allocation of the new bucket array
  fails.
\<close>

definition growth_fails :: "bool \<Rightarrow> robin_table_t \<Rightarrow> bool" where
  "growth_fails ok rt \<longleftrightarrow>
     expand_at rt \<le> count rt \<and> calloc_buckets ok (sz_mul (bucket_count rt) 2) = None"

section \<open>Arithmetic of the machine model\<close>

lemma and_pow2_minus1: "(x::nat) AND (2 ^ k - 1) = x mod 2 ^ k"
  by (metis mask_eq_exp_minus_1 take_bit_eq_mask take_bit_eq_mod)

lemma sz_add_small: "a + b < 2 ^ 64 \<Longrightarrow> sz_add a b = a + b"
  by (simp add: sz_add_def)

lemma sz_sub_small:
  assumes "b \<le> a" "a < 2 ^ 64"
  shows "sz_sub a b = a - b"
proof -
  have b: "b mod 2 ^ 64 = b" using assms by simp
  have "a + 2 ^ 64 - b = (a - b) + 2 ^ 64" using assms by simp
  then have "(a + 2 ^ 64 - b) mod 2 ^ 64 = ((a - b) + 2 ^ 64) mod 2 ^ 64"
    by (rule arg_cong)
  also have "\<dots> = (a - b) mod 2 ^ 64" by (rule mod_add_self2)
  also have "\<dots> = a - b" using assms by (intro mod_less) arith
  finally show ?thesis by (simp only: sz_sub_def b)
qed

lemma sz_mul_small: "a * b < 2 ^ 64 \<Longrightarrow> sz_mul a b = a * b"
  by (simp add: sz_mul_def)

lemma sz_mul_le: "sz_mul a b \<le> a * b"
  by (simp add: sz_mul_def)

lemma next_idx:
  assumes "is_pow2 n" "idx < n" "n * sizeof_bucket < 2 ^ 64"
  shows "sz_add idx 1 AND (n - 1) = (idx + 1) mod n"
proof -
  from assms obtain k where k: "n = 2 ^ k" by (auto simp: is_pow2_def)
  have "idx + 1 < 2 ^ 64" using assms by (simp add: sizeof_bucket_def)
  then have "sz_add idx 1 = idx + 1" by (rule sz_add_small)
  then show ?thesis unfolding k by (simp only: and_pow2_minus1)
qed

lemma ideal_idx:
  assumes "is_pow2 n"
  shows "x AND (n - 1) = x mod n"
  using assms unfolding is_pow2_def by (elim exE) (simp only: and_pow2_minus1)

lemma pow2_pos: "is_pow2 n \<Longrightarrow> 0 < n"
  by (auto simp: is_pow2_def)

lemma zero_bucket_key: "key zero_bucket = None"
  by (simp add: zero_bucket_def)

section \<open>Lookup\<close>

lemma rt_inv_core: "rt_inv rt \<Longrightarrow> rt_core rt"
  by (simp add: rt_inv_def rt_core_def)

lemma slot_okD:
  assumes "wf_slots hf sd bs" "i < length bs" "key (bs ! i) = Some k"
  shows "k \<noteq> []" "klen (bs ! i) = length k" "hash (bs ! i) = hf k (length k) sd"
    "psl (bs ! i) < length bs" "(unat (hash (bs ! i)) + psl (bs ! i)) mod length bs = i"
proof -
  from assms have "slot_ok hf sd (length bs) i (bs ! i)" by (simp add: wf_slots_def)
  then have "k \<noteq> [] \<and> klen (bs ! i) = length k \<and> hash (bs ! i) = hf k (length k) sd \<and>
      psl (bs ! i) < length bs \<and> (unat (hash (bs ! i)) + psl (bs ! i)) mod length bs = i"
    unfolding slot_ok_def assms(3) option.case .
  then show "k \<noteq> []" "klen (bs ! i) = length k" "hash (bs ! i) = hf k (length k) sd"
    "psl (bs ! i) < length bs" "(unat (hash (bs ! i)) + psl (bs ! i)) mod length bs = i"
    by blast+
qed

lemma slot_ok_empty:
  assumes "wf_slots hf sd bs" "i < length bs" "key (bs ! i) = None"
  shows "bs ! i = zero_bucket"
  using assms by (auto simp: wf_slots_def slot_ok_def)

lemma key_match_occ:
  assumes "klen b = length kb" "hash b = hf kb (length kb) sd" "key b = Some kb"
  shows "key_match b (hf k (length k) sd) k (length k) = Some (kb = k)"
  using assms by (auto simp: key_match_def memcmp_eq_def)

lemma key_match_zero:
  assumes "k \<noteq> []"
  shows "key_match zero_bucket h k (length k) = Some False"
  using assms by (simp add: key_match_def zero_bucket_def)

lemma mod_succ: "0 < n \<Longrightarrow> ((a + d) mod n + 1) mod n = (a + Suc d) mod n"
  by (simp add: mod_Suc_eq)

lemma probe_chain:
  assumes wf: "wf_slots hf sd bs" and ord: "rh_ordered bs"
    and i: "i < length bs" and k: "key (bs ! i) = Some k"
    and d: "d \<le> psl (bs ! i)"
  shows "occupied (bs ! ((unat (hash (bs ! i)) + d) mod length bs)) \<and>
         d \<le> psl (bs ! ((unat (hash (bs ! i)) + d) mod length bs))"
  using d
proof (induction "psl (bs ! i) - d" arbitrary: d)
  case 0
  then have "d = psl (bs ! i)" by simp
  then show ?case using slot_okD(5)[OF wf i k] k by (simp add: occupied_def)
next
  case (Suc m)
  let ?n = "length bs" and ?h = "unat (hash (bs ! i))"
  have n: "0 < ?n" using i by linarith
  from Suc have d1: "Suc d \<le> psl (bs ! i)" and m: "m = psl (bs ! i) - Suc d" by simp_all
  from Suc.hyps(1)[OF m d1]
  have nxt: "occupied (bs ! ((?h + Suc d) mod ?n))" "Suc d \<le> psl (bs ! ((?h + Suc d) mod ?n))"
    by simp_all
  let ?j = "(?h + d) mod ?n"
  have j: "?j < ?n" using n by simp
  have jn: "(?j + 1) mod ?n = (?h + Suc d) mod ?n" using n by (rule mod_succ)
  from ord j have "occupied (bs ! ((?j + 1) mod ?n)) \<and> 0 < psl (bs ! ((?j + 1) mod ?n))
      \<longrightarrow> occupied (bs ! ?j) \<and> psl (bs ! ((?j + 1) mod ?n)) \<le> psl (bs ! ?j) + 1"
    unfolding rh_ordered_def by blast
  with nxt jn show ?case by simp
qed

lemma get_loop_step:
  assumes "idx < length (buckets rt)" "key_match (buckets rt ! idx) h k n = Some m"
  shows "get_bucket_loop rt k n h idx p =
     (if m then Some (Some idx)
      else if key (buckets rt ! idx) = None \<or> psl (buckets rt ! idx) < p then Some None
      else get_bucket_loop rt k n h (sz_add idx 1 AND mask_rt rt) (sz_add p 1))"
  using assms by (subst get_bucket_loop.simps) (simp add: Let_def)

lemma get_loop_found:
  assumes core: "rt_core rt"
    and i: "i < bucket_count rt" and k: "key (buckets rt ! i) = Some k"
    and d: "d \<le> psl (buckets rt ! i)"
  shows "get_bucket_loop rt k (length k) (hash_func rt k (length k) (seed rt))
           ((unat (hash_func rt k (length k) (seed rt)) + d) mod bucket_count rt) d = Some (Some i)"
  using d
proof (induction "psl (buckets rt ! i) - d" arbitrary: d)
  case 0
  let ?bs = "buckets rt" and ?n = "bucket_count rt"
  let ?h = "hash_func rt k (length k) (seed rt)"
  from core have len: "length ?bs = ?n" and wf: "wf_slots (hash_func rt) (seed rt) ?bs"
    by (simp_all add: rt_core_def)
  have il: "i < length ?bs" using i len by simp
  note s = slot_okD[OF wf il k]
  from 0 have "d = psl (?bs ! i)" by simp
  then have idx: "(unat ?h + d) mod ?n = i" using s(3,5) len by simp
  have km: "key_match (?bs ! i) ?h k (length k) = Some True"
    using key_match_occ[where hf="hash_func rt" and sd="seed rt" and k=k, OF s(2) s(3) k] by simp
  show ?case
    unfolding idx by (simp add: get_loop_step[OF il km])
next
  case (Suc m)
  let ?bs = "buckets rt" and ?n = "bucket_count rt"
  let ?h = "hash_func rt k (length k) (seed rt)"
  from core have len: "length ?bs = ?n" and wf: "wf_slots (hash_func rt) (seed rt) ?bs"
    and ord: "rh_ordered ?bs" and dist: "distinct_keys ?bs" and p2: "is_pow2 ?n"
    and sz: "?n * sizeof_bucket < 2 ^ 64" and mask: "mask_rt rt = ?n - 1"
    by (simp_all add: rt_core_def)
  have il: "i < length ?bs" using i len by simp
  note s = slot_okD[OF wf il k]
  from Suc have d1: "Suc d \<le> psl (?bs ! i)" and m: "m = psl (?bs ! i) - Suc d" by simp_all
  let ?j = "(unat ?h + d) mod ?n"
  have n0: "0 < ?n" using i by linarith
  have j: "?j < length ?bs" using n0 len by simp
  from probe_chain[OF wf ord il k, of d] d1 s(3) len
  have occ: "occupied (?bs ! ?j)" and dp: "d \<le> psl (?bs ! ?j)" by simp_all
  then obtain kj where kj: "key (?bs ! ?j) = Some kj" by (auto simp: occupied_def)
  note sj = slot_okD[OF wf j kj]
  have km: "key_match (?bs ! ?j) ?h k (length k) = Some (kj = k)"
    using key_match_occ[where hf="hash_func rt" and sd="seed rt" and k=k, OF sj(2) sj(3) kj] by simp
  have d64: "d + 1 < 2 ^ 64" using d1 s(4) sz len by (simp add: sizeof_bucket_def)
  have nxt: "sz_add ?j 1 AND mask_rt rt = (unat ?h + Suc d) mod ?n"
    using next_idx[OF p2 _ sz, of ?j] j len mask mod_succ[OF n0, of "unat ?h" d] by simp
  show ?case
  proof (cases "kj = k")
    case True
    then have "?j = i" using dist j il k kj unfolding distinct_keys_def occupied_def
      by (metis option.distinct(1))
    then show ?thesis
      using get_loop_step[OF j km] True by simp
  next
    case False
    have step: "get_bucket_loop rt k (length k) ?h ?j d =
          get_bucket_loop rt k (length k) ?h (sz_add ?j 1 AND mask_rt rt) (sz_add d 1)"
      using kj dp False by (simp add: get_loop_step[OF j km])
    have e2: "sz_add d 1 = Suc d" using sz_add_small[OF d64] by simp
    show ?thesis using Suc.hyps(1)[OF m d1] unfolding step nxt e2 .
  qed
qed

lemma find_slot_Some: "find_slot bs k = Some i \<Longrightarrow> i < length bs \<and> key (bs ! i) = Some k"
  by (induction bs arbitrary: i) (auto split: if_splits)

lemma find_slot_None: "find_slot bs k = None \<longleftrightarrow> (\<forall>i<length bs. key (bs ! i) \<noteq> Some k)"
proof (induction bs)
  case Nil
  show ?case by simp
next
  case (Cons b bs)
  show ?case
  proof (cases "key b = Some k")
    case True
    then show ?thesis by auto
  next
    case False
    have "(\<forall>i<length (b # bs). key ((b # bs) ! i) \<noteq> Some k) \<longleftrightarrow>
          (\<forall>i<length bs. key (bs ! i) \<noteq> Some k)"
      using False by (auto simp: nth_Cons split: nat.splits)
    then show ?thesis using False Cons by simp
  qed
qed

lemma find_slot_distinct:
  assumes "distinct_keys bs" "i < length bs" "key (bs ! i) = Some k"
  shows "find_slot bs k = Some i"
proof (cases "find_slot bs k")
  case None
  then show ?thesis using assms find_slot_None by blast
next
  case (Some j)
  from find_slot_Some[OF Some] have "j < length bs" "key (bs ! j) = Some k" by simp_all
  with assms have "i = j" unfolding distinct_keys_def occupied_def
    by (metis option.distinct(1))
  then show ?thesis using Some by simp
qed

lemma get_loop_absent:
  assumes core: "rt_core rt"
    and ab: "\<forall>i<bucket_count rt. key (buckets rt ! i) \<noteq> Some k"
    and k: "k \<noteq> []"
    and idx: "idx < bucket_count rt" and d: "d \<le> bucket_count rt"
  shows "get_bucket_loop rt k (length k) (hash_func rt k (length k) (seed rt)) idx d = Some None"
  using idx d
proof (induction "bucket_count rt - d" arbitrary: d idx)
  case 0
  let ?bs = "buckets rt" and ?n = "bucket_count rt"
  let ?h = "hash_func rt k (length k) (seed rt)"
  from core have len: "length ?bs = ?n" and wf: "wf_slots (hash_func rt) (seed rt) ?bs"
    by (simp_all add: rt_core_def)
  have il: "idx < length ?bs" using 0 len by simp
  from 0 have dn: "d = ?n" by simp
  show ?case
  proof (cases "key (?bs ! idx)")
    case None
    then have z: "?bs ! idx = zero_bucket" using slot_ok_empty[OF wf il] by simp
    have km: "key_match (?bs ! idx) ?h k (length k) = Some False"
      unfolding z using k by (rule key_match_zero)
    show ?thesis using None by (simp add: get_loop_step[OF il km])
  next
    case (Some kj)
    note sj = slot_okD[OF wf il Some]
    have ne: "kj \<noteq> k" using ab 0(2) Some by auto
    have km: "key_match (?bs ! idx) ?h k (length k) = Some (kj = k)"
      using key_match_occ[where hf="hash_func rt" and sd="seed rt" and k=k, OF sj(2) sj(3) Some]
      by simp
    have "psl (?bs ! idx) < d" using sj(4) dn len by simp
    then show ?thesis using ne by (simp add: get_loop_step[OF il km])
  qed
next
  case (Suc m)
  let ?bs = "buckets rt" and ?n = "bucket_count rt"
  let ?h = "hash_func rt k (length k) (seed rt)"
  from core have len: "length ?bs = ?n" and wf: "wf_slots (hash_func rt) (seed rt) ?bs"
    and p2: "is_pow2 ?n" and sz: "?n * sizeof_bucket < 2 ^ 64" and mask: "mask_rt rt = ?n - 1"
    by (simp_all add: rt_core_def)
  have il: "idx < length ?bs" using Suc len by simp
  from Suc have dn: "d < ?n" and m: "m = ?n - Suc d" by simp_all
  have n0: "0 < ?n" using dn by linarith
  show ?case
  proof (cases "key (?bs ! idx)")
    case None
    then have z: "?bs ! idx = zero_bucket" using slot_ok_empty[OF wf il] by simp
    have km: "key_match (?bs ! idx) ?h k (length k) = Some False"
      unfolding z using k by (rule key_match_zero)
    show ?thesis using None by (simp add: get_loop_step[OF il km])
  next
    case (Some kj)
    note sj = slot_okD[OF wf il Some]
    have ne: "kj \<noteq> k" using ab Suc(3) Some by auto
    have km: "key_match (?bs ! idx) ?h k (length k) = Some (kj = k)"
      using key_match_occ[where hf="hash_func rt" and sd="seed rt" and k=k, OF sj(2) sj(3) Some]
      by simp
    show ?thesis
    proof (cases "psl (?bs ! idx) < d")
      case True
      then show ?thesis using ne by (simp add: get_loop_step[OF il km])
    next
      case False
      have step: "get_bucket_loop rt k (length k) ?h idx d =
          get_bucket_loop rt k (length k) ?h (sz_add idx 1 AND mask_rt rt) (sz_add d 1)"
        using Some False ne by (simp add: get_loop_step[OF il km])
      have d64: "d + 1 < 2 ^ 64" using dn sz by (simp add: sizeof_bucket_def)
      have e2: "sz_add d 1 = Suc d" using sz_add_small[OF d64] by simp
      have nxt: "sz_add idx 1 AND mask_rt rt = (idx + 1) mod ?n"
        using next_idx[OF p2 Suc(3) sz] mask by simp
      have "(idx + 1) mod ?n < ?n" using n0 by simp
      from Suc.hyps(1)[OF m this] dn show ?thesis unfolding step nxt e2 by simp
    qed
  qed
qed

lemma get_bucket_correct:
  assumes core: "rt_core rt" and k: "k \<noteq> []"
  shows "robin_table_get_bucket rt k (length k) = Some (find_slot (buckets rt) k)"
proof -
  let ?bs = "buckets rt" and ?n = "bucket_count rt"
  let ?h = "hash_func rt k (length k) (seed rt)"
  from core have len: "length ?bs = ?n" and dist: "distinct_keys ?bs"
    and p2: "is_pow2 ?n" and mask: "mask_rt rt = ?n - 1"
    by (simp_all add: rt_core_def)
  have n0: "0 < ?n" using p2 by (rule pow2_pos)
  have start: "unat ?h AND mask_rt rt = (unat ?h + 0) mod ?n"
    using ideal_idx[OF p2] mask by simp
  show ?thesis
  proof (cases "find_slot ?bs k")
    case None
    then have ab: "\<forall>i<?n. key (?bs ! i) \<noteq> Some k" using find_slot_None len by metis
    have "(unat ?h + 0) mod ?n < ?n" using n0 by simp
    from get_loop_absent[OF core ab k this, of 0] show ?thesis
      unfolding robin_table_get_bucket_def Let_def start None by simp
  next
    case (Some i)
    from find_slot_Some[OF Some] len have i: "i < ?n" and ki: "key (?bs ! i) = Some k" by simp_all
    from get_loop_found[OF core i ki, of 0] show ?thesis
      unfolding robin_table_get_bucket_def Let_def start Some by simp
  qed
qed

lemma get_correct:
  assumes core: "rt_core rt" and k: "k \<noteq> []"
  shows "robin_table_get rt k (length k) =
           Some (case contents rt k of None \<Rightarrow> NULL | Some v \<Rightarrow> v)"
  using k by (simp add: robin_table_get_def get_bucket_correct[OF core k] contents_def
      split: option.splits)

section \<open>Insertion\<close>

lemma put0_empty:
  assumes "idx < length (buckets rt)" "key (buckets rt ! idx) = None"
  shows "put0_loop rt k n v h idx e =
           Some (v, rt\<lparr>buckets := (buckets rt)[idx := e], count := sz_add (count rt) 1\<rparr>)"
  using assms by (subst put0_loop.simps) (auto simp: Let_def)

lemma put0_match:
  assumes "idx < length (buckets rt)" "key (buckets rt ! idx) \<noteq> None"
    "key_match (buckets rt ! idx) h k n = Some True"
  shows "put0_loop rt k n v h idx e = Some (val (buckets rt ! idx), rt)"
  using assms by (subst put0_loop.simps) (auto simp: Let_def)

lemma put0_step:
  assumes "idx < length (buckets rt)" "key (buckets rt ! idx) \<noteq> None"
    "key_match (buckets rt ! idx) h k n = Some False"
  shows "put0_loop rt k n v h idx e =
     (if psl (buckets rt ! idx) < psl e
      then put0_loop (rt\<lparr>buckets := (buckets rt)[idx := e]\<rparr>) k n v h
             (sz_add idx 1 AND mask_rt rt)
             ((buckets rt ! idx)\<lparr>psl := sz_add (psl (buckets rt ! idx)) 1\<rparr>)
      else put0_loop rt k n v h (sz_add idx 1 AND mask_rt rt) (e\<lparr>psl := sz_add (psl e) 1\<rparr>))"
  using assms by (subst put0_loop.simps) (auto simp: Let_def)

lemma mod_add_inj:
  assumes "(a + d) mod n = (a + p) mod n" "d < n" "p < (n::nat)"
  shows "d = p"
proof -
  have aux: "x = y" if "(a + x) mod n = (a + y) mod n" "x \<le> y" "y < n" for x y
  proof -
    have "n dvd (a + y) - (a + x)"
      using that by (subst mod_eq_dvd_iff_nat[symmetric]) simp_all
    then have "n dvd y - x" by simp
    moreover have "y - x < n" using that by simp
    ultimately have "y - x = 0" by (meson dvd_imp_le less_le_not_le not_gr_zero)
    then show ?thesis using that by simp
  qed
  show ?thesis
  proof (cases "d \<le> p")
    case True
    then show ?thesis using aux assms by blast
  next
    case False
    then have "p \<le> d" by simp
    then show ?thesis using aux[of p d] assms by simp
  qed
qed

lemma mod_add_ne:
  assumes "0 < s" "s < (n::nat)"
  shows "(idx + s) mod n \<noteq> idx mod n"
proof
  assume "(idx + s) mod n = idx mod n"
  then have "(idx + s) mod n = (idx + 0) mod n" by simp
  from mod_add_inj[OF this] assms show False by simp
qed

lemma cover:
  assumes "r < (n::nat)" "n \<le> m"
  shows "\<exists>d<m. (a + d) mod n = r"
proof -
  let ?d = "(r + n - a mod n) mod n"
  have n: "0 < n" using assms by linarith
  have an: "a mod n < n" using n by simp
  have "(a + ?d) mod n = (a mod n + (r + n - a mod n)) mod n"
    by (metis mod_add_eq mod_mod_trivial)
  also have "a mod n + (r + n - a mod n) = r + n" using an by simp
  also have "(r + n) mod n = r" using assms by simp
  finally have "(a + ?d) mod n = r" .
  moreover have "?d < m" using n assms(2) by (meson less_le_trans mod_less_divisor)
  ultimately show ?thesis by blast
qed

lemma carried_psl_lt:
  assumes car: "carried_ok hf sd bs idx e"
    and emp: "r < length bs" "\<not> occupied (bs ! r)"
  shows "psl e < length bs"
proof (rule ccontr)
  assume "\<not> psl e < length bs"
  then have "length bs \<le> psl e" by simp
  from cover[OF emp(1) this, of "unat (hash e)"] obtain d where
    "d < psl e" "(unat (hash e) + d) mod length bs = r" by blast
  with car have "occupied (bs ! r)" unfolding carried_ok_def by blast
  with emp show False by simp
qed

lemma filter_update_length:
  "i < length xs \<Longrightarrow>
   length (filter P (xs[i := x])) + (if P (xs ! i) then 1 else 0) =
   length (filter P xs) + (if P x then 1 else 0)"
proof (induction xs arbitrary: i)
  case Nil
  then show ?case by simp
next
  case (Cons a xs)
  show ?case
  proof (cases i)
    case 0
    then show ?thesis by simp
  next
    case (Suc j)
    with Cons.prems have "j < length xs" by simp
    from Cons.IH[OF this] Suc show ?thesis by simp
  qed
qed

lemma wf_update:
  assumes "wf_slots hf sd bs" "slot_ok hf sd (length bs) idx e" "idx < length bs"
  shows "wf_slots hf sd (bs[idx := e])"
  using assms unfolding wf_slots_def by (auto simp: nth_list_update)

lemma distinct_update:
  assumes d: "distinct_keys bs" and idx: "idx < length bs" and e: "\<forall>j<length bs. j \<noteq> idx \<longrightarrow> key (bs ! j) \<noteq> key e"
  shows "distinct_keys (bs[idx := e])"
  unfolding distinct_keys_def
proof (intro allI impI)
  fix i j
  assume i: "i < length (bs[idx := e])" and j: "j < length (bs[idx := e])"
    and h: "occupied (bs[idx := e] ! i) \<and> key (bs[idx := e] ! i) = key (bs[idx := e] ! j)"
  show "i = j"
  proof (cases "i = idx")
    case True
    show ?thesis
    proof (cases "j = idx")
      case True
      with \<open>i = idx\<close> show ?thesis by simp
    next
      case False
      with True h i j e idx show ?thesis by (auto simp: nth_list_update)
    qed
  next
    case False
    show ?thesis
    proof (cases "j = idx")
      case True
      with False h i j e idx show ?thesis by (auto simp: nth_list_update)
    next
      case jf: False
      with False h i j d idx show ?thesis unfolding distinct_keys_def
        by (simp add: nth_list_update)
    qed
  qed
qed

lemma ordered_update:
  assumes ord: "rh_ordered bs" and idx: "idx < length bs"
    and occ: "occupied e"
    and rich: "occupied (bs ! idx) \<longrightarrow> psl (bs ! idx) \<le> psl e"
    and prev: "\<forall>i<length bs. (i + 1) mod length bs = idx \<longrightarrow> 0 < psl e \<longrightarrow>
                 occupied (bs ! i) \<and> psl e \<le> psl (bs ! i) + 1"
  shows "rh_ordered (bs[idx := e])"
  unfolding rh_ordered_def
proof (intro allI impI)
  fix i
  let ?n = "length bs" and ?bs' = "bs[idx := e]"
  assume i: "i < length ?bs'"
  then have i': "i < ?n" by simp
  let ?j = "(i + 1) mod length ?bs'"
  have jn: "?j = (i + 1) mod ?n" by simp
  have "0 < ?n" using i' by linarith
  then have j: "(i + 1) mod ?n < ?n" by (rule mod_less_divisor)
  assume h: "occupied (?bs' ! ?j) \<and> 0 < psl (?bs' ! ?j)"
  from ord i' have o: "occupied (bs ! ((i + 1) mod ?n)) \<and> 0 < psl (bs ! ((i + 1) mod ?n))
      \<longrightarrow> occupied (bs ! i) \<and> psl (bs ! ((i + 1) mod ?n)) \<le> psl (bs ! i) + 1"
    unfolding rh_ordered_def by blast
  show "occupied (?bs' ! i) \<and> psl (?bs' ! ?j) \<le> psl (?bs' ! i) + 1"
  proof (cases "(i + 1) mod ?n = idx")
    case True
    then have ej: "?bs' ! ?j = e" using idx by simp
    from h ej have pe: "0 < psl e" by simp
    from prev i' True pe have p: "occupied (bs ! i)" "psl e \<le> psl (bs ! i) + 1" by blast+
    show ?thesis
    proof (cases "i = idx")
      case True
      then show ?thesis using ej idx occ by simp
    next
      case False
      then show ?thesis using ej p by simp
    qed
  next
    case False
    then have uj: "?bs' ! ?j = bs ! ((i + 1) mod ?n)" by simp
    from h uj o have q: "occupied (bs ! i)" "psl (bs ! ((i + 1) mod ?n)) \<le> psl (bs ! i) + 1"
      by simp_all
    show ?thesis
    proof (cases "i = idx")
      case True
      then show ?thesis using uj q rich idx occ by simp
    next
      case False
      then show ?thesis using uj q by simp
    qed
  qed
qed

lemma has_update:
  assumes "idx < length bs"
  shows "has (bs[idx := e]) k v \<longleftrightarrow>
     (\<exists>i<length bs. i \<noteq> idx \<and> key (bs ! i) = Some k \<and> val (bs ! i) = v) \<or>
     (key e = Some k \<and> val e = v)"
  unfolding has_def using assms
  by (auto simp: nth_list_update split: if_splits)

lemma prev_unique:
  assumes "i < n" "(i + 1) mod n = (a + p) mod n" "0 < p"
  shows "i = (a + (p - 1)) mod (n::nat)"
proof -
  have "(i + 1) mod n = ((a + (p - 1)) + 1) mod n" using assms by simp
  then have "(1 + i) mod n = (1 + (a + (p - 1)) mod n) mod n"
    by (simp add: add.commute mod_Suc_eq)
  from mod_add_inj[OF this] assms(1) show ?thesis
    by (metis gr_implies_not0 mod_less_divisor not_gr_zero)
qed

lemma rt_core_buckets:
  assumes "rt_core rt" "length bs' = length (buckets rt)"
    "wf_slots (hash_func rt) (seed rt) bs'" "rh_ordered bs'" "distinct_keys bs'"
  shows "rt_core (rt\<lparr>buckets := bs'\<rparr>)"
  using assms by (simp add: rt_core_def)

lemma carried_slot_ok:
  assumes "carried_ok hf sd bs idx e" "psl e < length bs"
  shows "slot_ok hf sd (length bs) idx e"
  using assms unfolding carried_ok_def slot_ok_def by auto

lemma carried_prev:
  assumes car: "carried_ok hf sd bs idx e"
  shows "\<forall>i<length bs. (i + 1) mod length bs = idx \<longrightarrow> 0 < psl e \<longrightarrow>
           occupied (bs ! i) \<and> psl e \<le> psl (bs ! i) + 1"
proof (intro allI impI)
  fix i
  assume i: "i < length bs" and s: "(i + 1) mod length bs = idx" and p: "0 < psl e"
  from car have idx: "(unat (hash e) + psl e) mod length bs = idx"
    and ch: "\<forall>d<psl e. occupied (bs ! ((unat (hash e) + d) mod length bs)) \<and>
                 d \<le> psl (bs ! ((unat (hash e) + d) mod length bs))"
    unfolding carried_ok_def by blast+
  from s idx have "(i + 1) mod length bs = (unat (hash e) + psl e) mod length bs" by simp
  from prev_unique[OF i this p] have ie: "i = (unat (hash e) + (psl e - 1)) mod length bs" .
  from ch p have "occupied (bs ! ((unat (hash e) + (psl e - 1)) mod length bs)) \<and>
     psl e - 1 \<le> psl (bs ! ((unat (hash e) + (psl e - 1)) mod length bs))"
    by (metis diff_less zero_less_one)
  with ie show "occupied (bs ! i) \<and> psl e \<le> psl (bs ! i) + 1" by auto
qed

lemma carried_occupied: "carried_ok hf sd bs idx e \<Longrightarrow> occupied e"
  unfolding carried_ok_def occupied_def by auto

text \<open>Placing the carried entry into slot \<open>idx\<close> keeps the slots well formed and ordered.\<close>

lemma place_carried:
  assumes core: "rt_core rt" and idx: "idx < bucket_count rt"
    and car: "carried_ok (hash_func rt) (seed rt) (buckets rt) idx e"
    and ps: "psl e < bucket_count rt"
    and rich: "occupied (buckets rt ! idx) \<longrightarrow> psl (buckets rt ! idx) \<le> psl e"
  shows "wf_slots (hash_func rt) (seed rt) ((buckets rt)[idx := e])"
    "rh_ordered ((buckets rt)[idx := e])"
    "distinct_keys ((buckets rt)[idx := e])"
proof -
  let ?bs = "buckets rt"
  from core have len: "length ?bs = bucket_count rt"
    and wf: "wf_slots (hash_func rt) (seed rt) ?bs"
    and ord: "rh_ordered ?bs" and dist: "distinct_keys ?bs"
    by (simp_all add: rt_core_def)
  have il: "idx < length ?bs" using idx len by simp
  have so: "slot_ok (hash_func rt) (seed rt) (length ?bs) idx e"
    using carried_slot_ok[OF car] ps len by simp
  show "wf_slots (hash_func rt) (seed rt) (?bs[idx := e])"
    using wf so il by (rule wf_update)
  show "rh_ordered (?bs[idx := e])"
    using ord il carried_occupied[OF car] rich carried_prev[OF car] by (rule ordered_update)
  have "\<forall>j<length ?bs. j \<noteq> idx \<longrightarrow> key (?bs ! j) \<noteq> key e"
    using car unfolding carried_ok_def by blast
  with dist il show "distinct_keys (?bs[idx := e])" by (rule distinct_update)
qed

lemma shift_idx: "0 < n \<Longrightarrow> ((idx + 1) mod n + t) mod n = (idx + Suc t) mod (n::nat)"
  by (simp add: mod_add_left_eq)

lemma put0_loop_insert:
  "rt_core rt \<Longrightarrow> idx < bucket_count rt \<Longrightarrow>
   carried_ok (hash_func rt) (seed rt) (buckets rt) idx e \<Longrightarrow>
   g < bucket_count rt \<Longrightarrow>
   \<not> occupied (buckets rt ! ((idx + g) mod bucket_count rt)) \<Longrightarrow>
   (\<forall>t<g. occupied (buckets rt ! ((idx + t) mod bucket_count rt)) \<and>
           key (buckets rt ! ((idx + t) mod bucket_count rt)) \<noteq> Some k) \<Longrightarrow>
   \<exists>bs'. put0_loop rt k (length k) v (hash_func rt k (length k) (seed rt)) idx e =
            Some (v, rt\<lparr>buckets := bs', count := sz_add (count rt) 1\<rparr>) \<and>
         inserted rt e bs'"
proof (induction g arbitrary: rt idx e)
  case 0
  let ?bs = "buckets rt" and ?n = "bucket_count rt"
  note core = "0.prems"(1) and idx = "0.prems"(2) and car = "0.prems"(3)
  from core have len: "length ?bs = ?n" by (simp add: rt_core_def)
  have il: "idx < length ?bs" using idx len by simp
  from "0.prems"(5) idx have emp: "\<not> occupied (?bs ! idx)" by simp
  then have kn: "key (?bs ! idx) = None" by (simp add: occupied_def)
  have ps: "psl e < ?n" using carried_psl_lt[OF car il emp] len by simp
  have rich: "occupied (?bs ! idx) \<longrightarrow> psl (?bs ! idx) \<le> psl e" using emp by simp
  note pl = place_carried[OF core idx car ps rich]
  have hs: "has (?bs[idx := e]) k' v' \<longleftrightarrow> has ?bs k' v' \<or> (key e = Some k' \<and> val e = v')"
    for k' v'
    by (subst has_update[OF il]) (use kn in \<open>auto simp: has_def\<close>)
  have fl: "length (filter occupied (?bs[idx := e])) = Suc (length (filter occupied ?bs))"
    using filter_update_length[OF il, of occupied e] emp carried_occupied[OF car] by simp
  have "inserted rt e (?bs[idx := e])"
    unfolding inserted_def using pl hs fl len by simp
  then show ?case using put0_empty[OF il kn] by blast
next
  case (Suc g)
  let ?bs = "buckets rt" and ?n = "bucket_count rt"
  let ?h = "hash_func rt k (length k) (seed rt)"
  note core = Suc.prems(1) and idx = Suc.prems(2) and car = Suc.prems(3)
  from core have len: "length ?bs = ?n" and wf: "wf_slots (hash_func rt) (seed rt) ?bs"
    and ord: "rh_ordered ?bs" and dist: "distinct_keys ?bs" and p2: "is_pow2 ?n"
    and sz: "?n * sizeof_bucket < 2 ^ 64" and mask: "mask_rt rt = ?n - 1"
    by (simp_all add: rt_core_def)
  have il: "idx < length ?bs" using idx len by simp
  have n0: "0 < ?n" using idx by linarith
  let ?b = "?bs ! idx"
  from Suc.prems(6) idx have occ: "occupied ?b" and nk: "key ?b \<noteq> Some k"
    by (metis add.right_neutral mod_less zero_less_Suc)+
  then obtain kb where kb: "key ?b = Some kb" by (auto simp: occupied_def)
  note sb = slot_okD[OF wf il kb]
  have km: "key_match ?b ?h k (length k) = Some False"
    using key_match_occ[where hf="hash_func rt" and sd="seed rt" and k=k, OF sb(2) sb(3) kb]
      nk kb by simp
  let ?r = "(idx + Suc g) mod ?n"
  have r: "?r < length ?bs" using n0 len by simp
  have emp: "\<not> occupied (?bs ! ?r)" using Suc.prems(5) by simp
  have ps: "psl e < ?n" using carried_psl_lt[OF car r emp] len by simp
  have nxt: "sz_add idx 1 AND mask_rt rt = (idx + 1) mod ?n"
    using next_idx[OF p2 idx sz] mask by simp
  have i1: "(idx + 1) mod ?n < ?n" using n0 by simp
  have g1: "g < ?n" using Suc.prems(4) by simp
  have ne: "(idx + Suc t) mod ?n \<noteq> idx" if "t \<le> g" for t
    using mod_add_ne[of "Suc t" ?n idx] that Suc.prems(4) idx by simp
  have kn: "key ?b \<noteq> None" using kb by simp
  note step = put0_step[OF il kn km, of v e]
  show ?case
  proof (cases "psl ?b < psl e")
    case True
    let ?bs1 = "?bs[idx := e]"
    let ?rt1 = "rt\<lparr>buckets := ?bs1\<rparr>"
    let ?e1 = "?b\<lparr>psl := Suc (psl ?b)\<rparr>"
    have pb64: "psl ?b + 1 < 2 ^ 64" using sb(4) sz len by (simp add: sizeof_bucket_def)
    have e1: "?b\<lparr>psl := sz_add (psl ?b) 1\<rparr> = ?e1" using sz_add_small[OF pb64] by simp
    have rich: "occupied ?b \<longrightarrow> psl ?b \<le> psl e" using True by simp
    note pl = place_carried[OF core idx car ps rich]
    have core1: "rt_core ?rt1" using rt_core_buckets[OF core _ pl] by simp
    have car1: "carried_ok (hash_func ?rt1) (seed ?rt1) (buckets ?rt1) ((idx + 1) mod ?n) ?e1"
      unfolding carried_ok_def
    proof (intro conjI allI impI)
      show "\<exists>ke. key ?e1 = Some ke \<and> ke \<noteq> [] \<and> klen ?e1 = length ke \<and>
          hash ?e1 = hash_func ?rt1 ke (length ke) (seed ?rt1)"
        using kb sb by simp
      show "(unat (hash ?e1) + psl ?e1) mod length (buckets ?rt1) = (idx + 1) mod ?n"
        using sb(5) len mod_succ[OF n0, of "unat (hash ?b)" "psl ?b"] by simp
    next
      fix d assume d: "d < psl ?e1"
      let ?s = "(unat (hash ?e1) + d) mod length (buckets ?rt1)"
      have s: "?s = (unat (hash ?b) + d) mod length ?bs" by simp
      show "occupied (buckets ?rt1 ! ?s)" "d \<le> psl (buckets ?rt1 ! ?s)"
      proof -
        have "occupied (buckets ?rt1 ! ?s) \<and> d \<le> psl (buckets ?rt1 ! ?s)"
        proof (cases "d = psl ?b")
          case True
          then have "?s = idx" using sb(5) s by simp
          then show ?thesis using il carried_occupied[OF car] True \<open>psl ?b < psl e\<close> by simp
        next
          case False
          with d have dl: "d \<le> psl ?b" "d < psl ?b" by simp_all
          have "(unat (hash ?b) + d) mod length ?bs \<noteq> idx"
          proof
            assume "(unat (hash ?b) + d) mod length ?bs = idx"
            then have "(unat (hash ?b) + d) mod length ?bs =
                (unat (hash ?b) + psl ?b) mod length ?bs" using sb(5) by simp
            from mod_add_inj[OF this] dl(2) sb(4) show False by simp
          qed
          then show ?thesis using probe_chain[OF wf ord il kb dl(1)] s by simp
        qed
        then show "occupied (buckets ?rt1 ! ?s)" "d \<le> psl (buckets ?rt1 ! ?s)" by simp_all
      qed
    next
      fix j assume j: "j < length (buckets ?rt1)"
      show "key (buckets ?rt1 ! j) \<noteq> key ?e1"
      proof (cases "j = idx")
        case True
        then show ?thesis using car il unfolding carried_ok_def by auto
      next
        case False
        have "key (?bs ! j) \<noteq> key ?b"
        proof
          assume "key (?bs ! j) = key ?b"
          with dist il j occ have "idx = j" unfolding distinct_keys_def by simp
          with False show False by simp
        qed
        then show ?thesis using False by simp
      qed
    qed
    have emp1: "\<not> occupied (buckets ?rt1 ! (((idx + 1) mod ?n + g) mod bucket_count ?rt1))"
      using emp ne[of g] shift_idx[OF n0, of idx g] by simp
    have run1: "\<forall>t<g. occupied (buckets ?rt1 ! (((idx + 1) mod ?n + t) mod bucket_count ?rt1)) \<and>
           key (buckets ?rt1 ! (((idx + 1) mod ?n + t) mod bucket_count ?rt1)) \<noteq> Some k"
    proof (intro allI impI)
      fix t assume t: "t < g"
      then have "Suc t < Suc g" by simp
      with Suc.prems(6) have "occupied (?bs ! ((idx + Suc t) mod ?n)) \<and>
          key (?bs ! ((idx + Suc t) mod ?n)) \<noteq> Some k" by blast
      then show "occupied (buckets ?rt1 ! (((idx + 1) mod ?n + t) mod bucket_count ?rt1)) \<and>
           key (buckets ?rt1 ! (((idx + 1) mod ?n + t) mod bucket_count ?rt1)) \<noteq> Some k"
        using ne[of t] t shift_idx[OF n0, of idx t] by simp
    qed
    from Suc.IH[OF core1 _ car1 _ emp1 run1] i1 g1
    obtain bs' where res: "put0_loop ?rt1 k (length k) v (hash_func ?rt1 k (length k) (seed ?rt1))
          ((idx + 1) mod ?n) ?e1 = Some (v, ?rt1\<lparr>buckets := bs', count := sz_add (count ?rt1) 1\<rparr>)"
      and ins: "inserted ?rt1 ?e1 bs'" by auto
    have "put0_loop rt k (length k) v ?h idx e =
          Some (v, rt\<lparr>buckets := bs', count := sz_add (count rt) 1\<rparr>)"
      using res True unfolding step nxt e1 by simp
    moreover have "inserted rt e bs'"
    proof -
      have hs: "has bs' k' v' \<longleftrightarrow> has ?bs k' v' \<or> (key e = Some k' \<and> val e = v')" for k' v'
      proof -
        have "has bs' k' v' \<longleftrightarrow> has ?bs1 k' v' \<or> (key ?b = Some k' \<and> val ?b = v')"
          using ins unfolding inserted_def by simp
        also have "\<dots> \<longleftrightarrow> has ?bs k' v' \<or> (key e = Some k' \<and> val e = v')"
          by (subst has_update[OF il]) (use il in \<open>auto simp: has_def\<close>)
        finally show ?thesis .
      qed
      have "length (filter occupied ?bs1) = length (filter occupied ?bs)"
        using filter_update_length[OF il, of occupied e] occ carried_occupied[OF car] by simp
      then show ?thesis using ins hs unfolding inserted_def by simp
    qed
    ultimately show ?thesis by blast
  next
    case False
    let ?e1 = "e\<lparr>psl := Suc (psl e)\<rparr>"
    have pe64: "psl e + 1 < 2 ^ 64" using ps sz by (simp add: sizeof_bucket_def)
    have e1: "e\<lparr>psl := sz_add (psl e) 1\<rparr> = ?e1" using sz_add_small[OF pe64] by simp
    from car have ck: "\<exists>ke. key e = Some ke \<and> ke \<noteq> [] \<and> klen e = length ke \<and>
          hash e = hash_func rt ke (length ke) (seed rt)"
      and ci: "(unat (hash e) + psl e) mod length ?bs = idx"
      and ch: "\<forall>d<psl e. occupied (?bs ! ((unat (hash e) + d) mod length ?bs)) \<and>
                 d \<le> psl (?bs ! ((unat (hash e) + d) mod length ?bs))"
      and cd: "\<forall>j<length ?bs. key (?bs ! j) \<noteq> key e"
      unfolding carried_ok_def by blast+
    have car1: "carried_ok (hash_func rt) (seed rt) ?bs ((idx + 1) mod ?n) ?e1"
      unfolding carried_ok_def
    proof (intro conjI allI impI)
      show "\<exists>ke. key ?e1 = Some ke \<and> ke \<noteq> [] \<and> klen ?e1 = length ke \<and>
          hash ?e1 = hash_func rt ke (length ke) (seed rt)"
        using ck by simp
      show "(unat (hash ?e1) + psl ?e1) mod length ?bs = (idx + 1) mod ?n"
        using ci len mod_succ[OF n0, of "unat (hash e)" "psl e"] by simp
    next
      fix d assume d: "d < psl ?e1"
      have "occupied (?bs ! ((unat (hash e) + d) mod length ?bs)) \<and>
            d \<le> psl (?bs ! ((unat (hash e) + d) mod length ?bs))"
      proof (cases "d = psl e")
        case True
        then show ?thesis using ci occ False by simp
      next
        case False
        with d have "d < psl e" by simp
        with ch show ?thesis by blast
      qed
      then show "occupied (?bs ! ((unat (hash ?e1) + d) mod length ?bs))"
        "d \<le> psl (?bs ! ((unat (hash ?e1) + d) mod length ?bs))" by simp_all
    next
      fix j assume "j < length ?bs"
      with cd show "key (?bs ! j) \<noteq> key ?e1" by simp
    qed
    have emp1: "\<not> occupied (?bs ! (((idx + 1) mod ?n + g) mod ?n))"
      using emp shift_idx[OF n0, of idx g] by simp
    have run1: "\<forall>t<g. occupied (?bs ! (((idx + 1) mod ?n + t) mod ?n)) \<and>
           key (?bs ! (((idx + 1) mod ?n + t) mod ?n)) \<noteq> Some k"
    proof (intro allI impI)
      fix t assume t: "t < g"
      then have "Suc t < Suc g" by simp
      with Suc.prems(6) have "occupied (?bs ! ((idx + Suc t) mod ?n)) \<and>
          key (?bs ! ((idx + Suc t) mod ?n)) \<noteq> Some k" by blast
      then show "occupied (?bs ! (((idx + 1) mod ?n + t) mod ?n)) \<and>
           key (?bs ! (((idx + 1) mod ?n + t) mod ?n)) \<noteq> Some k"
        using shift_idx[OF n0, of idx t] by simp
    qed
    from Suc.IH[OF core i1 car1 g1 emp1 run1]
    obtain bs' where res: "put0_loop rt k (length k) v ?h ((idx + 1) mod ?n) ?e1 =
          Some (v, rt\<lparr>buckets := bs', count := sz_add (count rt) 1\<rparr>)"
      and ins: "inserted rt ?e1 bs'" by auto
    have "put0_loop rt k (length k) v ?h idx e =
          Some (v, rt\<lparr>buckets := bs', count := sz_add (count rt) 1\<rparr>)"
      using res False unfolding step nxt e1 by simp
    moreover have "inserted rt e bs'" using ins unfolding inserted_def by simp
    ultimately show ?thesis by blast
  qed
qed

lemma put0_loop_present:
  assumes core: "rt_core rt"
    and i: "i < bucket_count rt" and k: "key (buckets rt ! i) = Some k"
  shows "d \<le> psl (buckets rt ! i) \<Longrightarrow> psl e = d \<Longrightarrow>
         put0_loop rt k (length k) v (hash_func rt k (length k) (seed rt))
           ((unat (hash_func rt k (length k) (seed rt)) + d) mod bucket_count rt) e =
         Some (val (buckets rt ! i), rt)"
proof (induction "psl (buckets rt ! i) - d" arbitrary: d e)
  case 0
  let ?bs = "buckets rt" and ?n = "bucket_count rt"
  let ?h = "hash_func rt k (length k) (seed rt)"
  from core have len: "length ?bs = ?n" and wf: "wf_slots (hash_func rt) (seed rt) ?bs"
    by (simp_all add: rt_core_def)
  have il: "i < length ?bs" using i len by simp
  note s = slot_okD[OF wf il k]
  from 0 have "d = psl (?bs ! i)" by simp
  then have idx: "(unat ?h + d) mod ?n = i" using s(3,5) len by simp
  have km: "key_match (?bs ! i) ?h k (length k) = Some True"
    using key_match_occ[where hf="hash_func rt" and sd="seed rt" and k=k, OF s(2) s(3) k] by simp
  have kn: "key (?bs ! i) \<noteq> None" using k by simp
  show ?case unfolding idx by (rule put0_match[OF il kn km])
next
  case (Suc m)
  let ?bs = "buckets rt" and ?n = "bucket_count rt"
  let ?h = "hash_func rt k (length k) (seed rt)"
  from core have len: "length ?bs = ?n" and wf: "wf_slots (hash_func rt) (seed rt) ?bs"
    and ord: "rh_ordered ?bs" and dist: "distinct_keys ?bs" and p2: "is_pow2 ?n"
    and sz: "?n * sizeof_bucket < 2 ^ 64" and mask: "mask_rt rt = ?n - 1"
    by (simp_all add: rt_core_def)
  have il: "i < length ?bs" using i len by simp
  note s = slot_okD[OF wf il k]
  from Suc have d1: "Suc d \<le> psl (?bs ! i)" and m: "m = psl (?bs ! i) - Suc d" by simp_all
  let ?j = "(unat ?h + d) mod ?n"
  have n0: "0 < ?n" using i by linarith
  have j: "?j < length ?bs" using n0 len by simp
  from probe_chain[OF wf ord il k, of d] d1 s(3) len
  have occ: "occupied (?bs ! ?j)" and dp: "d \<le> psl (?bs ! ?j)" by simp_all
  then obtain kj where kj: "key (?bs ! ?j) = Some kj" by (auto simp: occupied_def)
  have kn: "key (?bs ! ?j) \<noteq> None" using kj by simp
  note sj = slot_okD[OF wf j kj]
  have km: "key_match (?bs ! ?j) ?h k (length k) = Some (kj = k)"
    using key_match_occ[where hf="hash_func rt" and sd="seed rt" and k=k, OF sj(2) sj(3) kj]
    by simp
  have d64: "d + 1 < 2 ^ 64" using d1 s(4) sz len by (simp add: sizeof_bucket_def)
  have nxt: "sz_add ?j 1 AND mask_rt rt = (unat ?h + Suc d) mod ?n"
    using next_idx[OF p2 _ sz, of ?j] j len mask mod_succ[OF n0, of "unat ?h" d] by simp
  show ?case
  proof (cases "kj = k")
    case True
    then have "?j = i" using dist j il k kj unfolding distinct_keys_def occupied_def
      by (metis option.distinct(1))
    moreover have "key_match (?bs ! ?j) ?h k (length k) = Some True" using km True by simp
    ultimately show ?thesis using put0_match[OF j kn, of ?h k "length k" v e] by simp
  next
    case False
    then have km': "key_match (?bs ! ?j) ?h k (length k) = Some False" using km by simp
    have e2: "e\<lparr>psl := sz_add (psl e) 1\<rparr> = e\<lparr>psl := Suc d\<rparr>"
      using sz_add_small[OF d64] Suc.prems(2) by simp
    have ns: "\<not> psl (?bs ! ?j) < psl e" using dp Suc.prems(2) by simp
    have "put0_loop rt k (length k) v ?h ?j e =
          put0_loop rt k (length k) v ?h ((unat ?h + Suc d) mod ?n) (e\<lparr>psl := Suc d\<rparr>)"
      using ns unfolding put0_step[OF j kn km', of v e] nxt e2 by simp
    also have "\<dots> = Some (val (?bs ! i), rt)"
      by (rule Suc.hyps(1)[OF m d1]) simp
    finally show ?thesis .
  qed
qed

lemma put0_present:
  assumes core: "rt_core rt" and f: "find_slot (buckets rt) k = Some i"
  shows "robin_table_put0 rt k (length k) v = Some (val (buckets rt ! i), rt)"
proof -
  let ?bs = "buckets rt" and ?n = "bucket_count rt"
  let ?h = "hash_func rt k (length k) (seed rt)"
  from core have len: "length ?bs = ?n" and p2: "is_pow2 ?n" and mask: "mask_rt rt = ?n - 1"
    by (simp_all add: rt_core_def)
  from find_slot_Some[OF f] len have i: "i < ?n" and ki: "key (?bs ! i) = Some k" by simp_all
  have start: "unat ?h AND mask_rt rt = (unat ?h + 0) mod ?n"
    using ideal_idx[OF p2] mask by simp
  show ?thesis
    unfolding robin_table_put0_def Let_def start
    by (rule put0_loop_present[OF core i ki]) simp_all
qed

lemma exists_empty:
  assumes "length (filter occupied bs) < length bs"
  shows "\<exists>r<length bs. \<not> occupied (bs ! r)"
proof (rule ccontr)
  assume "\<not> (\<exists>r<length bs. \<not> occupied (bs ! r))"
  then have "\<forall>x\<in>set bs. occupied x" by (auto simp: in_set_conv_nth)
  then have "filter occupied bs = bs" by (rule filter_True)
  with assms show False by simp
qed

lemma first_gap:
  assumes r: "r < n" "\<not> P r" and idx: "idx < (n::nat)"
  shows "\<exists>g<n. \<not> P ((idx + g) mod n) \<and> (\<forall>t<g. P ((idx + t) mod n))"
proof -
  from cover[OF r(1) order_refl, of idx] obtain g0 where g0: "g0 < n" "(idx + g0) mod n = r"
    by blast
  define g where "g = (LEAST g. \<not> P ((idx + g) mod n))"
  have ex: "\<not> P ((idx + g0) mod n)" using g0 r by simp
  then have 1: "\<not> P ((idx + g) mod n)" unfolding g_def by (rule LeastI)
  have 2: "g \<le> g0" unfolding g_def using ex by (rule Least_le)
  have 3: "\<forall>t<g. P ((idx + t) mod n)" unfolding g_def using not_less_Least by blast
  from 1 2 3 g0 show ?thesis by (meson le_less_trans)
qed

lemma put0_absent:
  assumes core: "rt_core rt" and f: "find_slot (buckets rt) k = None" and k: "k \<noteq> []"
    and room: "length (filter occupied (buckets rt)) < bucket_count rt"
  shows "\<exists>bs'. robin_table_put0 rt k (length k) v =
            Some (v, rt\<lparr>buckets := bs', count := sz_add (count rt) 1\<rparr>) \<and>
         inserted rt \<lparr>key = Some k, val = v, psl = 0, klen = length k,
                      hash = hash_func rt k (length k) (seed rt)\<rparr> bs'"
proof -
  let ?bs = "buckets rt" and ?n = "bucket_count rt"
  let ?h = "hash_func rt k (length k) (seed rt)"
  let ?e = "\<lparr>key = Some k, val = v, psl = 0, klen = length k, hash = ?h\<rparr>"
  from core have len: "length ?bs = ?n" and p2: "is_pow2 ?n" and mask: "mask_rt rt = ?n - 1"
    by (simp_all add: rt_core_def)
  have n0: "0 < ?n" using p2 by (rule pow2_pos)
  let ?idx = "unat ?h mod ?n"
  have start: "unat ?h AND mask_rt rt = ?idx" using ideal_idx[OF p2] mask by simp
  have idx: "?idx < ?n" using n0 by simp
  from find_slot_None f have ab: "\<forall>i<length ?bs. key (?bs ! i) \<noteq> Some k" by blast
  have car: "carried_ok (hash_func rt) (seed rt) ?bs ?idx ?e"
    unfolding carried_ok_def using k ab len by simp
  from exists_empty[of ?bs] room len obtain r where r: "r < ?n" "\<not> occupied (?bs ! r)" by auto
  from first_gap[of r ?n "\<lambda>j. occupied (?bs ! j)" ?idx, OF r idx]
  obtain g where g: "g < ?n" "\<not> occupied (?bs ! ((?idx + g) mod ?n))"
    "\<forall>t<g. occupied (?bs ! ((?idx + t) mod ?n))" by blast
  have run: "\<forall>t<g. occupied (?bs ! ((?idx + t) mod ?n)) \<and>
                    key (?bs ! ((?idx + t) mod ?n)) \<noteq> Some k"
    using g(3) ab len n0 by simp
  from put0_loop_insert[OF core idx car g(1) g(2) run, of v]
  show ?thesis unfolding robin_table_put0_def Let_def start by simp
qed

lemma contents_has:
  assumes "distinct_keys (buckets rt)"
  shows "contents rt k = Some v \<longleftrightarrow> has (buckets rt) k v"
proof
  assume "contents rt k = Some v"
  then obtain i where "find_slot (buckets rt) k = Some i" "val (buckets rt ! i) = v"
    by (auto simp: contents_def)
  with find_slot_Some show "has (buckets rt) k v" unfolding has_def by blast
next
  assume "has (buckets rt) k v"
  then obtain i where i: "i < length (buckets rt)" "key (buckets rt ! i) = Some k"
    "val (buckets rt ! i) = v" unfolding has_def by blast
  from find_slot_distinct[OF assms i(1,2)] i(3) show "contents rt k = Some v"
    by (simp add: contents_def)
qed

lemma contents_eqI:
  assumes d: "distinct_keys (buckets rt)" and h: "\<And>k v. has (buckets rt) k v \<longleftrightarrow> m k = Some v"
  shows "contents rt = m"
proof
  fix k
  have eq: "contents rt k = Some v \<longleftrightarrow> m k = Some v" for v
    using contents_has[OF d, of k v] h[of k v] by simp
  show "contents rt k = m k"
  proof (cases "m k")
    case None
    show ?thesis
    proof (cases "contents rt k")
      case c: None
      with None show ?thesis by simp
    next
      case (Some v)
      with eq[of v] None show ?thesis by simp
    qed
  next
    case (Some v)
    with eq[of v] show ?thesis by simp
  qed
qed

lemma contents_None: "contents rt k = None \<longleftrightarrow> find_slot (buckets rt) k = None"
  by (simp add: contents_def)

lemma same_config_refl: "same_config rt rt"
  by (simp add: same_config_def)

lemma same_config_trans: "same_config a b \<Longrightarrow> same_config b c \<Longrightarrow> same_config a c"
  by (simp add: same_config_def)

lemma count_lt_64:
  assumes "n * sizeof_bucket < 2 ^ 64" "c < n"
  shows "c + 1 < 2 ^ 64"
  using assms by (simp add: sizeof_bucket_def)

text \<open>A fresh insertion by \<open>put0\<close> into a table with room.\<close>

lemma put0_absent_inv:
  assumes inv: "rt_inv rt" and f: "contents rt k = None" and k: "k \<noteq> []"
    and room: "count rt + 1 < bucket_count rt"
  shows "\<exists>rt'. robin_table_put0 rt k (length k) v = Some (v, rt') \<and> rt_inv rt' \<and>
           same_config rt rt' \<and> count rt' = count rt + 1 \<and>
           contents rt' = (contents rt)(k \<mapsto> v)"
proof -
  let ?e = "\<lparr>key = Some k, val = v, psl = 0, klen = length k,
             hash = hash_func rt k (length k) (seed rt)\<rparr>"
  from inv have core: "rt_core rt" by (rule rt_inv_core)
  from inv have cnt: "count rt = length (filter occupied (buckets rt))"
    and sz: "bucket_count rt * sizeof_bucket < 2 ^ 64"
    and dist: "distinct_keys (buckets rt)"
    by (simp_all add: rt_inv_def)
  from f have fs: "find_slot (buckets rt) k = None" by (simp add: contents_None)
  have room': "length (filter occupied (buckets rt)) < bucket_count rt" using room cnt by simp
  from put0_absent[OF core fs k room', of v] obtain bs' where
    res: "robin_table_put0 rt k (length k) v =
            Some (v, rt\<lparr>buckets := bs', count := sz_add (count rt) 1\<rparr>)"
    and ins: "inserted rt ?e bs'" by blast
  let ?rt' = "rt\<lparr>buckets := bs', count := sz_add (count rt) 1\<rparr>"
  have c1: "sz_add (count rt) 1 = count rt + 1"
    using sz_add_small[OF count_lt_64[OF sz]] room by simp
  from ins have len: "length bs' = bucket_count rt"
    and wf: "wf_slots (hash_func rt) (seed rt) bs'" and ord: "rh_ordered bs'"
    and dist': "distinct_keys bs'"
    and hs: "\<And>k' v'. has bs' k' v' \<longleftrightarrow> has (buckets rt) k' v' \<or> (k' = k \<and> v' = v)"
    and fl: "length (filter occupied bs') = Suc (length (filter occupied (buckets rt)))"
    unfolding inserted_def by auto
  have inv': "rt_inv ?rt'"
    using inv len wf ord dist' fl room c1 unfolding rt_inv_def by simp
  have "contents ?rt' = (contents rt)(k \<mapsto> v)"
  proof (rule contents_eqI)
    show "distinct_keys (buckets ?rt')" using dist' by simp
  next
    fix k' v'
    show "has (buckets ?rt') k' v' \<longleftrightarrow> ((contents rt)(k \<mapsto> v)) k' = Some v'"
      using hs[of k' v'] contents_has[OF dist, of k' v'] f by auto
  qed
  moreover have "same_config rt ?rt'" by (simp add: same_config_def)
  ultimately show ?thesis using res inv' c1 by auto
qed

lemma put0_present_inv:
  assumes inv: "rt_inv rt" and f: "contents rt k = Some v1"
  shows "robin_table_put0 rt k (length k) v = Some (v1, rt)"
proof -
  from f obtain i where i: "find_slot (buckets rt) k = Some i" "val (buckets rt ! i) = v1"
    by (auto simp: contents_def)
  from put0_present[OF rt_inv_core[OF inv] i(1), of v] i(2) show ?thesis by simp
qed

lemma zero_not_occupied: "\<not> occupied zero_bucket"
  by (simp add: occupied_def zero_bucket_def)

lemma empty_slots:
  "wf_slots hf sd (replicate n zero_bucket)"
  "rh_ordered (replicate n zero_bucket)"
  "distinct_keys (replicate n zero_bucket)"
  "filter occupied (replicate n zero_bucket) = []"
  by (auto simp: wf_slots_def slot_ok_def rh_ordered_def distinct_keys_def zero_not_occupied
      zero_bucket_key)

lemma contents_empty:
  assumes "buckets rt = replicate n zero_bucket"
  shows "contents rt k = None"
proof -
  have "find_slot (replicate n zero_bucket) k = None"
    by (simp add: find_slot_None zero_bucket_key)
  then show ?thesis using assms by (simp add: contents_def)
qed

lemma set_map_filter_key:
  "set (List.map_filter key bs) = {k. \<exists>b\<in>set bs. key b = Some k}"
  by (auto simp: List.map_filter_def) force

lemma distinct_keys_Cons:
  assumes "distinct_keys (b # bs)"
  shows "distinct_keys bs" "\<And>k. key b = Some k \<Longrightarrow> \<forall>b'\<in>set bs. key b' \<noteq> Some k"
proof -
  show "distinct_keys bs"
    unfolding distinct_keys_def
  proof (intro allI impI)
    fix i j assume "i < length bs" "j < length bs"
      "occupied (bs ! i) \<and> key (bs ! i) = key (bs ! j)"
    with assms have "Suc i = Suc j" unfolding distinct_keys_def
      by (metis Suc_less_eq length_Cons nth_Cons_Suc)
    then show "i = j" by simp
  qed
  fix k assume k: "key b = Some k"
  show "\<forall>b'\<in>set bs. key b' \<noteq> Some k"
  proof
    fix b' assume "b' \<in> set bs"
    then obtain j where j: "j < length bs" "bs ! j = b'" by (auto simp: in_set_conv_nth)
    show "key b' \<noteq> Some k"
    proof
      assume "key b' = Some k"
      with assms k j have "0 = Suc j" unfolding distinct_keys_def occupied_def
        by (metis Suc_less_eq length_Cons nth_Cons_0 nth_Cons_Suc option.distinct(1)
            zero_less_Suc)
      then show False by simp
    qed
  qed
qed

lemma distinct_map_filter_key: "distinct_keys bs \<Longrightarrow> distinct (List.map_filter key bs)"
proof (induction bs)
  case Nil
  show ?case by (simp add: List.map_filter_simps)
next
  case (Cons b bs)
  note dk = distinct_keys_Cons[OF Cons.prems]
  show ?case
  proof (cases "key b")
    case None
    then show ?thesis using Cons.IH[OF dk(1)] by (simp add: List.map_filter_simps)
  next
    case (Some k)
    with dk(2)[OF Some] have "k \<notin> set (List.map_filter key bs)"
      by (auto simp: set_map_filter_key)
    then show ?thesis using Cons.IH[OF dk(1)] Some by (simp add: List.map_filter_simps)
  qed
qed

section \<open>Resizing\<close>

lemma reinsert_ok:
  "rt_inv rt \<Longrightarrow>
   (\<forall>b\<in>set obs. \<forall>kb. key b = Some kb \<longrightarrow> kb \<noteq> [] \<and> klen b = length kb) \<Longrightarrow>
   distinct (List.map_filter key obs) \<Longrightarrow>
   (\<forall>kb\<in>set (List.map_filter key obs). contents rt kb = None) \<Longrightarrow>
   count rt + length (filter occupied obs) < bucket_count rt \<Longrightarrow>
   \<exists>rt'. reinsert rt obs = Some rt' \<and> rt_inv rt' \<and> same_config rt rt' \<and>
         count rt' = count rt + length (filter occupied obs) \<and>
         (\<forall>k. contents rt' k =
               (case contents rt k of
                  Some v \<Rightarrow> Some v
                | None \<Rightarrow> map_option val (find (\<lambda>b. key b = Some k) obs)))"
proof (induction obs arbitrary: rt)
  case Nil
  then show ?case by (auto simp: same_config_refl split: option.splits)
next
  case (Cons b obs)
  show ?case
  proof (cases "key b")
    case None
    have p2: "\<forall>b\<in>set obs. \<forall>kb. key b = Some kb \<longrightarrow> kb \<noteq> [] \<and> klen b = length kb"
      using Cons.prems(2) by simp
    have p3: "distinct (List.map_filter key obs)"
      using Cons.prems(3) None by (simp add: List.map_filter_simps)
    have p4: "\<forall>kb\<in>set (List.map_filter key obs). contents rt kb = None"
      using Cons.prems(4) None by (simp add: List.map_filter_simps)
    have nb: "\<not> occupied b" using None by (simp add: occupied_def)
    have p5: "count rt + length (filter occupied obs) < bucket_count rt"
      using Cons.prems(5) nb by simp
    have fe: "find (\<lambda>b. key b = Some k) (b # obs) = find (\<lambda>b. key b = Some k) obs" for k
      using None by simp
    have re: "reinsert rt (b # obs) = reinsert rt obs" using None by simp
    have fl: "filter occupied (b # obs) = filter occupied obs" using nb by simp
    from Cons.IH[OF Cons.prems(1) p2 p3 p4 p5] show ?thesis
      unfolding fe re fl .
  next
    case (Some kb)
    from Cons.prems(2) Some have kb: "kb \<noteq> []" "klen b = length kb" by simp_all
    have ob: "occupied b" using Some by (simp add: occupied_def)
    have mf: "List.map_filter key (b # obs) = kb # List.map_filter key obs"
      using Some by (simp add: List.map_filter_simps)
    from Cons.prems(4) mf have ab: "contents rt kb = None" by simp
    have room: "count rt + 1 < bucket_count rt" using Cons.prems(5) ob by simp
    from put0_absent_inv[OF Cons.prems(1) ab kb(1) room, of "val b"]
    obtain rt1 where r1: "robin_table_put0 rt kb (length kb) (val b) = Some (val b, rt1)"
      and inv1: "rt_inv rt1" and sc1: "same_config rt rt1" and c1: "count rt1 = count rt + 1"
      and ct1: "contents rt1 = (contents rt)(kb \<mapsto> val b)" by blast
    have p2: "\<forall>b\<in>set obs. \<forall>kb. key b = Some kb \<longrightarrow> kb \<noteq> [] \<and> klen b = length kb"
      using Cons.prems(2) by simp
    have p3: "distinct (List.map_filter key obs)" and nin: "kb \<notin> set (List.map_filter key obs)"
      using Cons.prems(3) mf by simp_all
    have p4: "\<forall>k\<in>set (List.map_filter key obs). contents rt1 k = None"
      using Cons.prems(4) mf nin ct1 by auto
    have p5: "count rt1 + length (filter occupied obs) < bucket_count rt1"
      using Cons.prems(5) ob c1 sc1 by (simp add: same_config_def)
    from Cons.IH[OF inv1 p2 p3 p4 p5] obtain rt' where
      r: "reinsert rt1 obs = Some rt'" and inv': "rt_inv rt'" and sc': "same_config rt1 rt'"
      and c': "count rt' = count rt1 + length (filter occupied obs)"
      and ct': "\<forall>k. contents rt' k =
               (case contents rt1 k of
                  Some v \<Rightarrow> Some v
                | None \<Rightarrow> map_option val (find (\<lambda>b. key b = Some k) obs))" by blast
    have "reinsert rt (b # obs) = Some rt'" using Some kb(2) r1 r by simp
    moreover have "count rt' = count rt + length (filter occupied (b # obs))"
      using c' c1 ob by simp
    moreover have "\<forall>k. contents rt' k =
               (case contents rt k of
                  Some v \<Rightarrow> Some v
                | None \<Rightarrow> map_option val (find (\<lambda>b. key b = Some k) (b # obs)))"
    proof
      fix k
      show "contents rt' k =
               (case contents rt k of
                  Some v \<Rightarrow> Some v
                | None \<Rightarrow> map_option val (find (\<lambda>b. key b = Some k) (b # obs)))"
      proof (cases "k = kb")
        case True
        then show ?thesis using ct' ct1 ab Some by simp
      next
        case False
        then have fe: "find (\<lambda>b. key b = Some k) (b # obs) = find (\<lambda>b. key b = Some k) obs"
          using Some by simp
        have "contents rt1 k = contents rt k" using ct1 False by simp
        with ct' show ?thesis unfolding fe by simp
      qed
    qed
    ultimately show ?thesis using inv' same_config_trans[OF sc1 sc'] by blast
  qed
qed

lemma find_key_contents:
  "map_option val (find (\<lambda>b. key b = Some k) bs) =
   map_option (\<lambda>i. val (bs ! i)) (find_slot bs k)"
  by (induction bs) (auto simp: option.map_comp comp_def)

lemma pow2_and_pred:
  assumes "is_pow2 bc" "bc < 2 ^ 64"
  shows "bc AND sz_sub bc 1 = 0"
proof -
  from assms obtain j where j: "bc = 2 ^ j" by (auto simp: is_pow2_def)
  have "1 \<le> bc" using j by simp
  then have "sz_sub bc 1 = bc - 1" using assms(2) by (rule sz_sub_small)
  then show ?thesis unfolding j by (simp only: and_pow2_minus1 mod_self)
qed

lemma empty_table_inv:
  assumes "is_pow2 bc" "bc * sizeof_bucket < 2 ^ 64" "is_pow2 (init_buckets rt)"
    "init_buckets rt \<le> bc"
  shows "rt_inv (empty_table rt bc (replicate bc zero_bucket))"
proof -
  have "0 < bc" using assms(1) by (rule pow2_pos)
  moreover have "bc < 2 ^ 64" using assms(2) by (simp add: sizeof_bucket_def)
  ultimately have "sz_sub bc 1 = bc - 1" using sz_sub_small[of 1 bc] by simp
  then show ?thesis
    using assms \<open>0 < bc\<close> unfolding rt_inv_def empty_table_def by (simp add: empty_slots)
qed

lemma resize_fail:
  assumes "is_pow2 bc" "bc < 2 ^ 64" "count rt < bc" "calloc_buckets ok bc = None"
  shows "robin_table_resize ok rt bc = Some (False, rt)"
  using assms pow2_and_pred[OF assms(1,2)] by (simp add: robin_table_resize_def)

lemma resize_ok:
  assumes inv: "rt_inv rt" and p2: "is_pow2 bc" and cnt: "count rt < bc"
    and init: "init_buckets rt \<le> bc"
    and al: "calloc_buckets ok bc = Some new_buckets"
  shows "\<exists>rt'. robin_table_resize ok rt bc = Some (True, rt') \<and> rt_inv rt' \<and>
           bucket_count rt' = bc \<and> init_buckets rt' = init_buckets rt \<and>
           seed rt' = seed rt \<and> hash_func rt' = hash_func rt \<and>
           count rt' = count rt \<and> contents rt' = contents rt"
proof -
  let ?bs = "buckets rt"
  from al have sz: "bc * sizeof_bucket < 2 ^ 64" and nb: "new_buckets = replicate bc zero_bucket"
    by (auto simp: calloc_buckets_def split: if_splits)
  have bc64: "bc < 2 ^ 64" using sz by (simp add: sizeof_bucket_def)
  from inv have len: "length ?bs = bucket_count rt"
    and wf: "wf_slots (hash_func rt) (seed rt) ?bs" and dist: "distinct_keys ?bs"
    and c: "count rt = length (filter occupied ?bs)" and pi: "is_pow2 (init_buckets rt)"
    by (simp_all add: rt_inv_def)
  let ?rt0 = "empty_table rt bc (replicate bc zero_bucket)"
  have inv0: "rt_inv ?rt0" using p2 sz pi init by (rule empty_table_inv)
  have ct0: "contents ?rt0 k = None" for k
    by (rule contents_empty[where n=bc]) (simp add: empty_table_def)
  have q2: "\<forall>b\<in>set ?bs. \<forall>kb. key b = Some kb \<longrightarrow> kb \<noteq> [] \<and> klen b = length kb"
  proof (intro ballI allI impI)
    fix b kb assume "b \<in> set ?bs" "key b = Some kb"
    then obtain i where "i < length ?bs" "key (?bs ! i) = Some kb" "?bs ! i = b"
      by (auto simp: in_set_conv_nth)
    with slot_okD(1,2)[OF wf this(1,2)] show "kb \<noteq> [] \<and> klen b = length kb" by simp
  qed
  have q3: "distinct (List.map_filter key ?bs)" using dist by (rule distinct_map_filter_key)
  have q4: "\<forall>kb\<in>set (List.map_filter key ?bs). contents ?rt0 kb = None" using ct0 by simp
  have q5: "count ?rt0 + length (filter occupied ?bs) < bucket_count ?rt0"
    using cnt c by (simp add: empty_table_def)
  from reinsert_ok[OF inv0 q2 q3 q4 q5] obtain rt' where
    r: "reinsert ?rt0 ?bs = Some rt'" and inv': "rt_inv rt'" and sc: "same_config ?rt0 rt'"
    and c': "count rt' = count ?rt0 + length (filter occupied ?bs)"
    and ct': "\<forall>k. contents rt' k =
               (case contents ?rt0 k of
                  Some v \<Rightarrow> Some v
                | None \<Rightarrow> map_option val (find (\<lambda>b. key b = Some k) ?bs))" by blast
  have "robin_table_resize ok rt bc = Some (True, rt')"
    using r cnt pow2_and_pred[OF p2 bc64] al nb len
    by (simp add: robin_table_resize_def empty_table_def)
  moreover have "contents rt' = contents rt"
    using ct' ct0 by (auto simp: find_key_contents contents_def)
  moreover have "count rt' = count rt" using c' c by (simp add: empty_table_def)
  ultimately show ?thesis using inv' sc by (simp add: same_config_def empty_table_def)
qed

section \<open>Backward-shift deletion\<close>

lemma rt_core_struct: "rt_core rt \<Longrightarrow> rt_struct rt"
  by (simp add: rt_core_def rt_struct_def)

lemma del_shift_stop:
  assumes "sz_add b 1 AND mask_rt rt = idx" "idx < length (buckets rt)" "b < length (buckets rt)"
    "key (buckets rt ! idx) = None \<or> psl (buckets rt ! idx) = 0"
  shows "del_shift rt b b =
     Some (rt\<lparr>buckets := (buckets rt)[b := zero_bucket], count := sz_sub (count rt) 1\<rparr>)"
  using assms by (subst del_shift.simps) (auto simp: Let_def)

lemma del_shift_step:
  assumes "sz_add b 1 AND mask_rt rt = idx" "idx < length (buckets rt)" "b < length (buckets rt)"
    "key (buckets rt ! idx) \<noteq> None" "psl (buckets rt ! idx) \<noteq> 0"
  shows "del_shift rt b b =
     del_shift (rt\<lparr>buckets :=
        ((buckets rt)[idx := (buckets rt ! idx)\<lparr>psl := sz_sub (psl (buckets rt ! idx)) 1\<rparr>])
          [b := ((buckets rt)[idx := (buckets rt ! idx)\<lparr>psl := sz_sub (psl (buckets rt ! idx)) 1\<rparr>]) ! idx]\<rparr>)
       idx idx"
  using assms by (subst del_shift.simps) (auto simp: Let_def)

lemma off_ne:
  assumes "b < n" "s < n" "s' < n" "s \<noteq> s'"
  shows "(b + s) mod n \<noteq> (b + s') mod (n::nat)"
  using mod_add_inj[of b s n s'] assms by blast

lemma off_zero: "b < n \<Longrightarrow> (b + 0) mod n = (b::nat)"
  by simp

lemma del_shift_run:
  "rt_struct rt \<Longrightarrow> b < bucket_count rt \<Longrightarrow> m + 1 < bucket_count rt \<Longrightarrow>
   (\<forall>t. 1 \<le> t \<and> t \<le> m \<longrightarrow>
      occupied (buckets rt ! ((b + t) mod bucket_count rt)) \<and>
      0 < psl (buckets rt ! ((b + t) mod bucket_count rt)) \<and>
      psl (buckets rt ! ((b + t) mod bucket_count rt)) < 2 ^ 64) \<Longrightarrow>
   \<not> occupied (buckets rt ! ((b + (m + 1)) mod bucket_count rt)) \<or>
     psl (buckets rt ! ((b + (m + 1)) mod bucket_count rt)) = 0 \<Longrightarrow>
   \<exists>bs'. del_shift rt b b = Some (rt\<lparr>buckets := bs', count := sz_sub (count rt) 1\<rparr>) \<and>
         shifted_by (buckets rt) b m bs'"
proof (induction m arbitrary: rt b)
  case 0
  let ?bs = "buckets rt" and ?n = "bucket_count rt"
  from "0.prems"(1) have len: "length ?bs = ?n" and p2: "is_pow2 ?n"
    and sz: "?n * sizeof_bucket < 2 ^ 64" and mask: "mask_rt rt = ?n - 1"
    by (simp_all add: rt_struct_def)
  note b = "0.prems"(2)
  have n0: "0 < ?n" using b by linarith
  let ?idx = "(b + 1) mod ?n"
  have nxt: "sz_add b 1 AND mask_rt rt = ?idx" using next_idx[OF p2 b sz] mask by simp
  have il: "?idx < length ?bs" using n0 len by simp
  have bl: "b < length ?bs" using b len by simp
  have st: "key (?bs ! ?idx) = None \<or> psl (?bs ! ?idx) = 0"
    using "0.prems"(5) by (simp add: occupied_def)
  have sh: "shifted_by ?bs b 0 (?bs[b := zero_bucket])"
    unfolding shifted_by_def
  proof (intro conjI allI impI)
    show "length (?bs[b := zero_bucket]) = length ?bs" by simp
  next
    fix t assume t: "t < length ?bs"
    show "?bs[b := zero_bucket] ! ((b + t) mod length ?bs) =
        (if t < 0 then dec_psl (?bs ! ((b + Suc t) mod length ?bs))
         else if t = 0 then zero_bucket else ?bs ! ((b + t) mod length ?bs))"
    proof (cases "t = 0")
      case True
      then show ?thesis using bl by simp
    next
      case False
      have "0 < length ?bs" using bl by linarith
      from off_ne[OF bl t this False]
      have "(b + t) mod length ?bs \<noteq> b" using bl by simp
      then show ?thesis using False bl by simp
    qed
  qed
  from del_shift_stop[OF nxt il bl st] sh show ?case by blast
next
  case (Suc m)
  let ?bs = "buckets rt" and ?n = "bucket_count rt"
  from Suc.prems(1) have len: "length ?bs = ?n" and p2: "is_pow2 ?n"
    and sz: "?n * sizeof_bucket < 2 ^ 64" and mask: "mask_rt rt = ?n - 1"
    by (simp_all add: rt_struct_def)
  note b = Suc.prems(2)
  have n0: "0 < ?n" using b by linarith
  have n3: "Suc m + 1 < ?n" using Suc.prems(3) .
  let ?idx = "(b + 1) mod ?n"
  have nxt: "sz_add b 1 AND mask_rt rt = ?idx" using next_idx[OF p2 b sz] mask by simp
  have il: "?idx < length ?bs" using n0 len by simp
  have idx: "?idx < ?n" using n0 by simp
  have bl: "b < length ?bs" using b len by simp
  from Suc.prems(4)[rule_format, of 1]
  have o1: "occupied (?bs ! ?idx)" "0 < psl (?bs ! ?idx)" "psl (?bs ! ?idx) < 2 ^ 64" by simp_all
  have k1: "key (?bs ! ?idx) \<noteq> None" using o1(1) by (simp add: occupied_def)
  have p1: "psl (?bs ! ?idx) \<noteq> 0" using o1(2) by simp
  have ds: "sz_sub (psl (?bs ! ?idx)) 1 = psl (?bs ! ?idx) - 1"
    using sz_sub_small[of 1 "psl (?bs ! ?idx)"] o1 by simp
  have ib: "?idx \<noteq> b" using off_ne[OF b, of 1 0] n3 b by simp
  let ?nx = "dec_psl (?bs ! ?idx)"
  let ?bs2 = "(?bs[?idx := ?nx])[b := ?nx]"
  let ?rt2 = "rt\<lparr>buckets := ?bs2\<rparr>"
  have step: "del_shift rt b b = del_shift ?rt2 ?idx ?idx"
    using del_shift_step[OF nxt il bl k1 p1] il ds by (simp add: dec_psl_def)
  have far: "?bs2 ! ((b + s) mod ?n) = ?bs ! ((b + s) mod ?n)" if "2 \<le> s" "s < ?n" for s
  proof -
    have "(b + s) mod ?n \<noteq> (b + 0) mod ?n" "(b + s) mod ?n \<noteq> (b + 1) mod ?n"
      using off_ne[OF b that(2), of 0] off_ne[OF b that(2), of 1] that n3 by simp_all
    then show ?thesis using b by simp
  qed
  have sh2: "(?idx + t) mod ?n = (b + Suc t) mod ?n" for t
    using shift_idx[OF n0] by simp
  have st2: "rt_struct ?rt2" using Suc.prems(1) by (simp add: rt_struct_def)
  have m2: "m + 1 < bucket_count ?rt2" using n3 by simp
  have run2: "\<forall>t. 1 \<le> t \<and> t \<le> m \<longrightarrow>
      occupied (buckets ?rt2 ! ((?idx + t) mod bucket_count ?rt2)) \<and>
      0 < psl (buckets ?rt2 ! ((?idx + t) mod bucket_count ?rt2)) \<and>
      psl (buckets ?rt2 ! ((?idx + t) mod bucket_count ?rt2)) < 2 ^ 64"
  proof (intro allI impI)
    fix t assume t: "1 \<le> t \<and> t \<le> m"
    then have "2 \<le> Suc t" "Suc t < ?n" "1 \<le> Suc t \<and> Suc t \<le> Suc m" using n3 by simp_all
    with far[of "Suc t"] Suc.prems(4)[rule_format, of "Suc t"] sh2[of t]
    show "occupied (buckets ?rt2 ! ((?idx + t) mod bucket_count ?rt2)) \<and>
      0 < psl (buckets ?rt2 ! ((?idx + t) mod bucket_count ?rt2)) \<and>
      psl (buckets ?rt2 ! ((?idx + t) mod bucket_count ?rt2)) < 2 ^ 64" by simp
  qed
  have stop2: "\<not> occupied (buckets ?rt2 ! ((?idx + (m + 1)) mod bucket_count ?rt2)) \<or>
     psl (buckets ?rt2 ! ((?idx + (m + 1)) mod bucket_count ?rt2)) = 0"
    using far[of "Suc m + 1"] Suc.prems(5) sh2[of "m + 1"] n3 by simp
  from Suc.IH[OF st2 _ m2 run2 stop2] idx obtain bs' where
    res: "del_shift ?rt2 ?idx ?idx = Some (?rt2\<lparr>buckets := bs', count := sz_sub (count ?rt2) 1\<rparr>)"
    and sh: "shifted_by ?bs2 ?idx m bs'" by auto
  have "shifted_by ?bs b (Suc m) bs'"
    unfolding shifted_by_def
  proof (intro conjI allI impI)
    show "length bs' = length ?bs" using sh by (simp add: shifted_by_def)
  next
    fix t assume t: "t < length ?bs"
    from sh have ih: "\<And>u. u < ?n \<Longrightarrow> bs' ! ((?idx + u) mod ?n) =
          (if u < m then dec_psl (?bs2 ! ((?idx + Suc u) mod ?n))
           else if u = m then zero_bucket else ?bs2 ! ((?idx + u) mod ?n))"
      using len by (simp add: shifted_by_def)
    show "bs' ! ((b + t) mod length ?bs) =
        (if t < Suc m then dec_psl (?bs ! ((b + Suc t) mod length ?bs))
         else if t = Suc m then zero_bucket else ?bs ! ((b + t) mod length ?bs))"
    proof (cases t)
      case 0
      have "(?idx + (?n - 1)) mod ?n = b" using b n0 sh2[of "?n - 1"] by simp
      moreover have "\<not> ?n - 1 < m" "?n - 1 \<noteq> m" "?n - 1 < ?n" using n3 by simp_all
      ultimately have "bs' ! b = ?bs2 ! b" using ih[of "?n - 1"] by simp
      then show ?thesis using 0 b bl len by simp
    next
      case (Suc u)
      then have u: "u < ?n" using t len by simp
      have e: "(b + t) mod length ?bs = (?idx + u) mod ?n" using sh2[of u] Suc len by simp
      show ?thesis
      proof (cases "u < m")
        case True
        then have "2 \<le> Suc (Suc u)" "Suc (Suc u) < ?n" using n3 by simp_all
        from far[OF this] sh2[of "Suc u"]
        have "?bs2 ! ((?idx + Suc u) mod ?n) = ?bs ! ((b + Suc (Suc u)) mod ?n)" by simp
        then show ?thesis unfolding e using ih[OF u] True Suc len by simp
      next
        case False
        show ?thesis
        proof (cases "u = m")
          case True
          then show ?thesis unfolding e using ih[OF u] Suc by simp
        next
          case f2: False
          with False have "2 \<le> Suc u" "Suc u < ?n" using Suc t len by simp_all
          from far[OF this] sh2[of u]
          have "?bs2 ! ((?idx + u) mod ?n) = ?bs ! ((b + Suc u) mod ?n)" by simp
          then show ?thesis unfolding e using ih[OF u] False f2 Suc len sh2[of u] by simp
        qed
      qed
    qed
  qed
  moreover have "del_shift rt b b = Some (rt\<lparr>buckets := bs', count := sz_sub (count rt) 1\<rparr>)"
    unfolding step res by simp
  ultimately show ?case by blast
qed

lemma off_surj:
  assumes "b < n" "j < (n::nat)"
  shows "\<exists>t<n. j = (b + t) mod n"
  using cover[OF assms(2) order_refl, of b] by auto

lemma off_Suc: "0 < n \<Longrightarrow> ((b + t) mod n + 1) mod n = (b + Suc t) mod (n::nat)"
  by (simp add: mod_Suc_eq)

lemma rh_ordered_off:
  assumes ord: "rh_ordered bs" and n0: "0 < length bs"
  shows "occupied (bs ! ((b + Suc t) mod length bs)) \<and> 0 < psl (bs ! ((b + Suc t) mod length bs))
     \<longrightarrow> occupied (bs ! ((b + t) mod length bs)) \<and>
         psl (bs ! ((b + Suc t) mod length bs)) \<le> psl (bs ! ((b + t) mod length bs)) + 1"
proof -
  have "(b + t) mod length bs < length bs" using n0 by simp
  with ord off_Suc[OF n0, of b t] show ?thesis unfolding rh_ordered_def by metis
qed

lemma rh_ordered_offI:
  assumes b: "b < length bs"
    and h: "\<And>t. t < length bs \<Longrightarrow>
      occupied (bs ! ((b + Suc t) mod length bs)) \<and> 0 < psl (bs ! ((b + Suc t) mod length bs))
      \<longrightarrow> occupied (bs ! ((b + t) mod length bs)) \<and>
         psl (bs ! ((b + Suc t) mod length bs)) \<le> psl (bs ! ((b + t) mod length bs)) + 1"
  shows "rh_ordered bs"
  unfolding rh_ordered_def
proof (intro allI impI)
  fix i assume i: "i < length bs"
    and o: "occupied (bs ! ((i + 1) mod length bs)) \<and> 0 < psl (bs ! ((i + 1) mod length bs))"
  from off_surj[OF b i] obtain t where t: "t < length bs" "i = (b + t) mod length bs" by blast
  have n0: "0 < length bs" using b by linarith
  have "(i + 1) mod length bs = (b + Suc t) mod length bs" unfolding t(2) using n0 by (rule off_Suc)
  with h[OF t(1)] o t(2) show "occupied (bs ! i) \<and>
      psl (bs ! ((i + 1) mod length bs)) \<le> psl (bs ! i) + 1" by simp
qed

lemma mod_pred:
  assumes "(a + p) mod n = (c + 1) mod n" "0 < p"
  shows "(a + (p - 1)) mod n = c mod (n::nat)"
proof (cases "0 < n")
  case True
  have "(1 + (a + (p - 1)) mod n) mod n = (1 + c mod n) mod n"
    using assms by (simp add: mod_Suc_eq)
  from mod_add_inj[OF this] True show ?thesis by simp
next
  case False
  then show ?thesis using assms by simp
qed

lemma dec_psl_simps:
  "key (dec_psl x) = key x" "val (dec_psl x) = val x" "klen (dec_psl x) = klen x"
  "hash (dec_psl x) = hash x" "psl (dec_psl x) = psl x - 1" "occupied (dec_psl x) = occupied x"
  by (simp_all add: dec_psl_def occupied_def)

lemma shifted_wf:
  assumes wf: "wf_slots hf sd bs" and b: "b < length bs" and m: "m + 1 < length bs"
    and run: "\<forall>t. 1 \<le> t \<and> t \<le> m \<longrightarrow> occupied (bs ! ((b + t) mod length bs)) \<and>
                  0 < psl (bs ! ((b + t) mod length bs))"
    and sh: "shifted_by bs b m bs'"
  shows "wf_slots hf sd bs'"
  unfolding wf_slots_def
proof (intro allI impI)
  let ?n = "length bs"
  fix j assume "j < length bs'"
  then have j: "j < ?n" using sh by (simp add: shifted_by_def)
  from off_surj[OF b j] obtain t where t: "t < ?n" "j = (b + t) mod ?n" by blast
  have n0: "0 < ?n" using b by linarith
  from sh t have v: "bs' ! j = (if t < m then dec_psl (bs ! ((b + Suc t) mod ?n))
           else if t = m then zero_bucket else bs ! j)" and len: "length bs' = ?n"
    by (simp_all add: shifted_by_def)
  show "slot_ok hf sd (length bs') j (bs' ! j)"
  proof (cases "t < m")
    case True
    let ?s = "(b + Suc t) mod ?n"
    have s: "?s < ?n" using n0 by simp
    from run[rule_format, of "Suc t"] True
    have o: "occupied (bs ! ?s)" "0 < psl (bs ! ?s)" by simp_all
    then obtain kx where kx: "key (bs ! ?s) = Some kx" by (auto simp: occupied_def)
    note sx = slot_okD[OF wf s kx]
    have "(unat (hash (bs ! ?s)) + psl (bs ! ?s)) mod ?n = (j + 1) mod ?n"
      using sx(5) t(2) off_Suc[OF n0, of b t] by simp
    from mod_pred[OF this o(2)] j
    have "(unat (hash (bs ! ?s)) + (psl (bs ! ?s) - 1)) mod ?n = j" by simp
    then show ?thesis using v True kx sx len
      by (simp add: slot_ok_def dec_psl_simps)
  next
    case False
    show ?thesis
    proof (cases "t = m")
      case True
      then show ?thesis using v by (simp add: slot_ok_def zero_bucket_key)
    next
      case f: False
      with False v have "bs' ! j = bs ! j" by simp
      then show ?thesis using wf j len by (simp add: wf_slots_def)
    qed
  qed
qed

lemma shifted_ordered:
  assumes ord: "rh_ordered bs" and b: "b < length bs" and m: "m + 1 < length bs"
    and run: "\<forall>t. 1 \<le> t \<and> t \<le> m \<longrightarrow> occupied (bs ! ((b + t) mod length bs)) \<and>
                  0 < psl (bs ! ((b + t) mod length bs))"
    and stop: "\<not> occupied (bs ! ((b + (m + 1)) mod length bs)) \<or>
               psl (bs ! ((b + (m + 1)) mod length bs)) = 0"
    and sh: "shifted_by bs b m bs'"
  shows "rh_ordered bs'"
proof (rule rh_ordered_offI[where b=b])
  let ?n = "length bs"
  from sh have len: "length bs' = ?n" by (simp add: shifted_by_def)
  show "b < length bs'" using b len by simp
  fix t assume "t < length bs'"
  then have t: "t < ?n" using len by simp
  let ?A = "\<lambda>t. bs ! ((b + t) mod ?n)" and ?A' = "\<lambda>t. bs' ! ((b + t) mod ?n)"
  from sh have f0: "\<And>u. u < ?n \<Longrightarrow> ?A' u =
      (if u < m then dec_psl (?A (Suc u)) else if u = m then zero_bucket else ?A u)"
    by (simp add: shifted_by_def)
  have n0: "0 < ?n" using b by linarith
  note ordA = rh_ordered_off[OF ord n0, of b]
  have goal: "occupied (?A' (Suc t)) \<and> 0 < psl (?A' (Suc t))
      \<longrightarrow> occupied (?A' t) \<and> psl (?A' (Suc t)) \<le> psl (?A' t) + 1"
  proof (cases "Suc t < ?n")
    case True
    note st = f0[OF True] and tt = f0[OF t]
    show ?thesis
    proof (cases "Suc t < m")
      case True
      then have r1: "occupied (?A (Suc t))" "0 < psl (?A (Suc t))"
        and r2: "occupied (?A (Suc (Suc t)))" "0 < psl (?A (Suc (Suc t)))"
        using run[rule_format, of "Suc t"] run[rule_format, of "Suc (Suc t)"] by simp_all
      from ordA[of "Suc t"] r2 have "psl (?A (Suc (Suc t))) \<le> psl (?A (Suc t)) + 1" by simp
      then show ?thesis using st tt True r1 by (auto simp: dec_psl_simps)
    next
      case False
      show ?thesis
      proof (cases "Suc t = m")
        case True
        then show ?thesis using st by (simp add: zero_not_occupied)
      next
        case f: False
        with False have gt: "m < Suc t" by simp
        then have st': "?A' (Suc t) = ?A (Suc t)" using st by simp
        show ?thesis
        proof (cases "t = m")
          case True
          then show ?thesis using st' stop by auto
        next
          case False
          with gt have "m < t" by simp
          then have "?A' t = ?A t" using tt by simp
          with st' ordA[of t] show ?thesis by simp
        qed
      qed
    qed
  next
    case False
    with t have tn: "Suc t = ?n" by simp
    then have wrap: "(b + Suc t) mod ?n = (b + 0) mod ?n" by simp
    have mt: "m < t" using tn m by simp
    then have tt: "?A' t = ?A t" using f0[OF t] by simp
    note z = f0[OF n0]
    show ?thesis
    proof (cases "0 < m")
      case False
      then show ?thesis unfolding wrap using z by (simp add: zero_not_occupied)
    next
      case True
      then have z': "?A' 0 = dec_psl (?A (Suc 0))" using z by simp
      show ?thesis
      proof (intro impI)
        assume a: "occupied (?A' (Suc t)) \<and> 0 < psl (?A' (Suc t))"
        then have p1: "occupied (?A (Suc 0))" "2 \<le> psl (?A (Suc 0))"
          unfolding wrap z' by (simp_all add: dec_psl_simps)
        from ordA[of 0] p1 have p0: "occupied (?A 0)" "psl (?A (Suc 0)) \<le> psl (?A 0) + 1"
          by simp_all
        then have "0 < psl (?A 0)" using p1(2) by simp
        with ordA[of t] p0(1) wrap
        have pt: "occupied (?A t)" "psl (?A 0) \<le> psl (?A t) + 1" by simp_all
        show "occupied (?A' t) \<and> psl (?A' (Suc t)) \<le> psl (?A' t) + 1"
          unfolding wrap z' tt using pt p0 by (auto simp: dec_psl_simps)
      qed
    qed
  qed
  show "occupied (bs' ! ((b + Suc t) mod length bs')) \<and>
         0 < psl (bs' ! ((b + Suc t) mod length bs')) \<longrightarrow>
         occupied (bs' ! ((b + t) mod length bs')) \<and>
         psl (bs' ! ((b + Suc t) mod length bs')) \<le> psl (bs' ! ((b + t) mod length bs')) + 1"
    using goal unfolding len .
qed

lemma src_inj: "t1 \<noteq> m \<Longrightarrow> t2 \<noteq> m \<Longrightarrow> src m t1 = src m t2 \<Longrightarrow> t1 = t2"
  by (auto simp: src_def split: if_splits)

lemma src_bound: "t < n \<Longrightarrow> m + 1 < n \<Longrightarrow> src m t < n"
  by (auto simp: src_def)

lemma src_pos: "t \<noteq> m \<Longrightarrow> 0 < src m t"
  by (auto simp: src_def)

lemma shifted_src:
  assumes sh: "shifted_by bs b m bs'" and t: "t < length bs" "t \<noteq> m"
  shows "key (bs' ! ((b + t) mod length bs)) = key (bs ! ((b + src m t) mod length bs))"
    "val (bs' ! ((b + t) mod length bs)) = val (bs ! ((b + src m t) mod length bs))"
  using assms by (auto simp: shifted_by_def src_def dec_psl_simps)

lemma shifted_hole:
  assumes sh: "shifted_by bs b m bs'" and m: "m < length bs"
  shows "key (bs' ! ((b + m) mod length bs)) = None"
  using assms by (auto simp: shifted_by_def zero_bucket_key)

lemma shifted_distinct:
  assumes dist: "distinct_keys bs" and b: "b < length bs" and m: "m + 1 < length bs"
    and sh: "shifted_by bs b m bs'"
  shows "distinct_keys bs'"
  unfolding distinct_keys_def
proof (intro allI impI)
  let ?n = "length bs"
  from sh have len: "length bs' = ?n" by (simp add: shifted_by_def)
  have n0: "0 < ?n" using b by linarith
  have mn: "m < ?n" using m by simp
  fix i j assume "i < length bs'" "j < length bs'"
    and h: "occupied (bs' ! i) \<and> key (bs' ! i) = key (bs' ! j)"
  then have i: "i < ?n" and j: "j < ?n" using len by simp_all
  from off_surj[OF b i] obtain t1 where t1: "t1 < ?n" "i = (b + t1) mod ?n" by blast
  from off_surj[OF b j] obtain t2 where t2: "t2 < ?n" "j = (b + t2) mod ?n" by blast
  have ne1: "t1 \<noteq> m" using h shifted_hole[OF sh mn] t1 by (auto simp: occupied_def)
  have ne2: "t2 \<noteq> m" using h shifted_hole[OF sh mn] t2 by (auto simp: occupied_def)
  let ?s1 = "(b + src m t1) mod ?n" and ?s2 = "(b + src m t2) mod ?n"
  have k1: "key (bs' ! i) = key (bs ! ?s1)" unfolding t1(2) by (rule shifted_src[OF sh t1(1) ne1])
  have k2: "key (bs' ! j) = key (bs ! ?s2)" unfolding t2(2) by (rule shifted_src[OF sh t2(1) ne2])
  have "?s1 < ?n" "?s2 < ?n" using n0 by simp_all
  moreover have "occupied (bs ! ?s1) \<and> key (bs ! ?s1) = key (bs ! ?s2)"
    using h k1 k2 unfolding occupied_def by metis
  ultimately have "?s1 = ?s2" using dist unfolding distinct_keys_def by blast
  from mod_add_inj[OF this src_bound[OF t1(1) m] src_bound[OF t2(1) m]]
  have "t1 = t2" using src_inj[OF ne1 ne2] by simp
  then show "i = j" using t1 t2 by simp
qed

lemma shifted_has:
  assumes dist: "distinct_keys bs" and b: "b < length bs" and m: "m + 1 < length bs"
    and kb: "key (bs ! b) = Some k"
    and sh: "shifted_by bs b m bs'"
  shows "has bs' k' v' \<longleftrightarrow> has bs k' v' \<and> k' \<noteq> k"
proof
  let ?n = "length bs"
  from sh have len: "length bs' = ?n" by (simp add: shifted_by_def)
  have n0: "0 < ?n" using b by linarith
  have mn: "m < ?n" using m by simp
  {
    assume "has bs' k' v'"
    then obtain i where i: "i < ?n" "key (bs' ! i) = Some k'" "val (bs' ! i) = v'"
      unfolding has_def len by blast
    from off_surj[OF b i(1)] obtain t where t: "t < ?n" "i = (b + t) mod ?n" by blast
    have ne: "t \<noteq> m" using i(2) shifted_hole[OF sh mn] t by auto
    let ?s = "(b + src m t) mod ?n"
    note ss = shifted_src[OF sh t(1) ne]
    have s: "?s < ?n" using n0 by simp
    have ks: "key (bs ! ?s) = Some k'" "val (bs ! ?s) = v'" using ss i t by simp_all
    then have "has bs k' v'" unfolding has_def using s by blast
    moreover have "k' \<noteq> k"
    proof
      assume "k' = k"
      with ks kb have "occupied (bs ! ?s) \<and> key (bs ! ?s) = key (bs ! b)"
        by (simp add: occupied_def)
      with dist s b have "?s = b" unfolding distinct_keys_def by blast
      then have "(b + src m t) mod ?n = (b + 0) mod ?n" using b by simp
      from mod_add_inj[OF this src_bound[OF t(1) m] n0] src_pos[OF ne] show False by simp
    qed
    ultimately show "has bs k' v' \<and> k' \<noteq> k" by blast
  }
  {
    assume a: "has bs k' v' \<and> k' \<noteq> k"
    then obtain j where j: "j < ?n" "key (bs ! j) = Some k'" "val (bs ! j) = v'"
      unfolding has_def by blast
    from off_surj[OF b j(1)] obtain s where s: "s < ?n" "j = (b + s) mod ?n" by blast
    have s0: "s \<noteq> 0"
    proof
      assume "s = 0"
      then have "j = b" using s(2) b by simp
      with a j(2) kb show False by simp
    qed
    define t where "t = (if s \<le> m then s - 1 else s)"
    have tp: "t < ?n" "t \<noteq> m" "src m t = s" using s0 s(1) by (auto simp: t_def src_def)
    note ss = shifted_src[OF sh tp(1,2)]
    have "(b + t) mod ?n < length bs'" using n0 len by simp
    moreover have "key (bs' ! ((b + t) mod ?n)) = Some k'" "val (bs' ! ((b + t) mod ?n)) = v'"
      using ss tp(3) s(2) j by simp_all
    ultimately show "has bs' k' v'" unfolding has_def by blast
  }
qed

lemma length_filter_occupied:
  "length (filter occupied bs) = length (List.map_filter key bs)"
  by (induction bs) (auto simp: List.map_filter_simps occupied_def split: option.splits)

lemma dom_contents:
  "dom (contents rt) = set (List.map_filter key (buckets rt))"
proof -
  have "contents rt k \<noteq> None \<longleftrightarrow> (\<exists>b\<in>set (buckets rt). key b = Some k)" for k
    unfolding contents_None find_slot_None by (metis in_set_conv_nth)
  then show ?thesis unfolding set_map_filter_key by (auto simp: dom_def)
qed

lemma count_card:
  assumes "distinct_keys (buckets rt)"
  shows "length (filter occupied (buckets rt)) = card (dom (contents rt))"
  unfolding length_filter_occupied dom_contents
  using distinct_card[OF distinct_map_filter_key[OF assms]] by simp

lemma rt_inv_count: "rt_inv rt \<Longrightarrow> count rt = card (dom (contents rt))"
  using count_card[of rt] by (simp add: rt_inv_def)

lemma run_length:
  assumes b: "b < (n::nat)" and r: "r < n" "r \<noteq> b" "\<not> P r"
  shows "\<exists>m. m + 1 < n \<and> \<not> P ((b + (m + 1)) mod n) \<and> (\<forall>t. 1 \<le> t \<and> t \<le> m \<longrightarrow> P ((b + t) mod n))"
proof -
  from off_surj[OF b r(1)] obtain s where s: "s < n" "r = (b + s) mod n" by blast
  have "s \<noteq> 0"
  proof
    assume "s = 0"
    then have "r = b" using s(2) b by simp
    with r(2) show False by simp
  qed
  then obtain s' where s': "s = Suc s'" by (cases s) auto
  define m where "m = (LEAST m. \<not> P ((b + Suc m) mod n))"
  have ex: "\<not> P ((b + Suc s') mod n)" using s s' r(3) by simp
  then have 1: "\<not> P ((b + Suc m) mod n)" unfolding m_def by (rule LeastI)
  have 2: "m \<le> s'" unfolding m_def using ex by (rule Least_le)
  have 3: "P ((b + Suc t) mod n)" if "t < m" for t
    using not_less_Least[of t "\<lambda>m. \<not> P ((b + Suc m) mod n)"] that unfolding m_def by blast
  have 4: "\<forall>t. 1 \<le> t \<and> t \<le> m \<longrightarrow> P ((b + t) mod n)"
  proof (intro allI impI)
    fix t assume "1 \<le> t \<and> t \<le> m"
    then obtain t' where "t = Suc t'" "t' < m" by (cases t) auto
    with 3 show "P ((b + t) mod n)" by simp
  qed
  have 5: "m + 1 < n" using 2 s s' by simp
  have 6: "\<not> P ((b + (m + 1)) mod n)" using 1 by simp
  from 4 5 6 show ?thesis by blast
qed

lemma del_shift_closed:
  assumes inv: "rt_inv rt" and b: "b < bucket_count rt" and kb: "key (buckets rt ! b) = Some k"
  shows "\<exists>m bs'. m + 1 < bucket_count rt \<and>
      (\<forall>t. 1 \<le> t \<and> t \<le> m \<longrightarrow>
         occupied (buckets rt ! ((b + t) mod bucket_count rt)) \<and>
         0 < psl (buckets rt ! ((b + t) mod bucket_count rt))) \<and>
      (\<not> occupied (buckets rt ! ((b + (m + 1)) mod bucket_count rt)) \<or>
         psl (buckets rt ! ((b + (m + 1)) mod bucket_count rt)) = 0) \<and>
      shifted_by (buckets rt) b m bs' \<and>
      del_shift rt b b = Some (rt\<lparr>buckets := bs', count := count rt - 1\<rparr>) \<and> 0 < count rt"
proof -
  let ?bs = "buckets rt" and ?n = "bucket_count rt"
  from inv have core: "rt_core rt" by (rule rt_inv_core)
  from inv have len: "length ?bs = ?n" and wf: "wf_slots (hash_func rt) (seed rt) ?bs"
    and c: "count rt = length (filter occupied ?bs)" and cn: "count rt < ?n"
    and sz: "?n * sizeof_bucket < 2 ^ 64" and dist: "distinct_keys ?bs"
    by (simp_all add: rt_inv_def)
  have n0: "0 < ?n" using b by linarith
  from exists_empty[of ?bs] c cn len obtain r where r: "r < ?n" "\<not> occupied (?bs ! r)" by auto
  have rb: "r \<noteq> b" using r(2) kb by (auto simp: occupied_def)
  let ?P = "\<lambda>j. occupied (?bs ! j) \<and> 0 < psl (?bs ! j)"
  have "\<not> ?P r" using r(2) by simp
  from run_length[of b ?n r ?P, OF b r(1) rb this] obtain m where
    m: "m + 1 < ?n" and stop: "\<not> ?P ((b + (m + 1)) mod ?n)"
    and run: "\<forall>t. 1 \<le> t \<and> t \<le> m \<longrightarrow> ?P ((b + t) mod ?n)" by blast
  have run': "\<forall>t. 1 \<le> t \<and> t \<le> m \<longrightarrow>
      occupied (?bs ! ((b + t) mod ?n)) \<and> 0 < psl (?bs ! ((b + t) mod ?n)) \<and>
      psl (?bs ! ((b + t) mod ?n)) < 2 ^ 64"
  proof (intro allI impI)
    fix t assume t: "1 \<le> t \<and> t \<le> m"
    with run have o: "occupied (?bs ! ((b + t) mod ?n))" "0 < psl (?bs ! ((b + t) mod ?n))"
      by simp_all
    then obtain kx where kx: "key (?bs ! ((b + t) mod ?n)) = Some kx" by (auto simp: occupied_def)
    have "(b + t) mod ?n < length ?bs" using n0 len by simp
    from slot_okD(4)[OF wf this kx] len sz
    have "psl (?bs ! ((b + t) mod ?n)) < 2 ^ 64" by (simp add: sizeof_bucket_def)
    with o show "occupied (?bs ! ((b + t) mod ?n)) \<and> 0 < psl (?bs ! ((b + t) mod ?n)) \<and>
      psl (?bs ! ((b + t) mod ?n)) < 2 ^ 64" by simp
  qed
  have stop': "\<not> occupied (?bs ! ((b + (m + 1)) mod ?n)) \<or> psl (?bs ! ((b + (m + 1)) mod ?n)) = 0"
    using stop by simp
  from del_shift_run[OF rt_core_struct[OF core] b m run' stop'] obtain bs' where
    res: "del_shift rt b b = Some (rt\<lparr>buckets := bs', count := sz_sub (count rt) 1\<rparr>)"
    and sh: "shifted_by ?bs b m bs'" by blast
  have "k \<in> dom (contents rt)"
    using find_slot_distinct[OF dist _ kb] b len by (auto simp: contents_def)
  then have "0 < card (dom (contents rt))"
    unfolding dom_contents by (auto simp: card_gt_0_iff)
  then have c0: "0 < count rt" using c count_card[OF dist] by simp
  have "count rt < 2 ^ 64" using cn sz by (simp add: sizeof_bucket_def)
  then have "sz_sub (count rt) 1 = count rt - 1" using sz_sub_small[of 1 "count rt"] c0 by simp
  with res sh m run stop' c0 show ?thesis by auto
qed

lemma del_shift_inv:
  assumes inv: "rt_inv rt" and b: "b < bucket_count rt" and kb: "key (buckets rt ! b) = Some k"
  shows "\<exists>rt1. del_shift rt b b = Some rt1 \<and> rt_inv rt1 \<and> same_config rt rt1 \<and>
           contents rt1 = (contents rt)(k := None) \<and> count rt1 = count rt - 1 \<and> 0 < count rt"
proof -
  let ?bs = "buckets rt" and ?n = "bucket_count rt"
  from inv have len: "length ?bs = ?n" and wf: "wf_slots (hash_func rt) (seed rt) ?bs"
    and ord: "rh_ordered ?bs" and dist: "distinct_keys ?bs"
    and c: "count rt = length (filter occupied ?bs)" and cn: "count rt < ?n"
    by (simp_all add: rt_inv_def)
  from del_shift_closed[OF inv b kb] len obtain m bs' where
    m: "m + 1 < length ?bs"
    and run: "\<forall>t. 1 \<le> t \<and> t \<le> m \<longrightarrow>
         occupied (?bs ! ((b + t) mod length ?bs)) \<and> 0 < psl (?bs ! ((b + t) mod length ?bs))"
    and stop: "\<not> occupied (?bs ! ((b + (m + 1)) mod length ?bs)) \<or>
         psl (?bs ! ((b + (m + 1)) mod length ?bs)) = 0"
    and sh: "shifted_by ?bs b m bs'"
    and res: "del_shift rt b b = Some (rt\<lparr>buckets := bs', count := count rt - 1\<rparr>)"
    and c0: "0 < count rt" by auto
  have bl: "b < length ?bs" using b len by simp
  let ?rt1 = "rt\<lparr>buckets := bs', count := count rt - 1\<rparr>"
  have len': "length bs' = ?n" using sh len by (simp add: shifted_by_def)
  have wf': "wf_slots (hash_func rt) (seed rt) bs'" using wf bl m run sh by (rule shifted_wf)
  have ord': "rh_ordered bs'" using ord bl m run stop sh by (rule shifted_ordered)
  have dist': "distinct_keys bs'" using dist bl m sh by (rule shifted_distinct)
  have ct: "contents ?rt1 = (contents rt)(k := None)"
  proof (rule contents_eqI)
    show "distinct_keys (buckets ?rt1)" using dist' by simp
  next
    fix k' v'
    show "has (buckets ?rt1) k' v' \<longleftrightarrow> ((contents rt)(k := None)) k' = Some v'"
      using shifted_has[OF dist bl m kb sh, of k' v'] contents_has[OF dist, of k' v'] by auto
  qed
  have kd: "k \<in> dom (contents rt)"
    using find_slot_distinct[OF dist bl kb] by (auto simp: contents_def)
  have "length (filter occupied bs') = card (dom (contents ?rt1))"
    using count_card[of ?rt1] dist' by simp
  also have "\<dots> = card (dom (contents rt) - {k})" unfolding ct by simp
  also have "\<dots> = card (dom (contents rt)) - 1" using kd by simp
  also have "\<dots> = count rt - 1" using c count_card[OF dist] by simp
  finally have fl: "length (filter occupied bs') = count rt - 1" .
  have "rt_inv ?rt1"
    using inv len' wf' ord' dist' fl cn unfolding rt_inv_def by simp
  moreover have "same_config rt ?rt1" by (simp add: same_config_def)
  ultimately show ?thesis using res ct c0 by auto
qed

lemma pow2_half:
  assumes "is_pow2 n" "is_pow2 i" "i < n"
  shows "is_pow2 (n div 2)" "i \<le> n div 2"
proof -
  from assms obtain k j where k: "n = 2 ^ k" and j: "i = 2 ^ j" by (auto simp: is_pow2_def)
  from assms(3) have "j < k" unfolding k j by simp
  then obtain k' where k': "k = Suc k'" "j \<le> k'" by (cases k) auto
  show "is_pow2 (n div 2)" unfolding k k' is_pow2_def by auto
  show "i \<le> n div 2" unfolding k j k' using k'(2) by simp
qed

lemma shrink_at_lt:
  assumes "rt_inv rt" "init_buckets rt < bucket_count rt"
  shows "shrink_at rt < bucket_count rt div 2"
proof -
  from assms(1) have s: "shrink_at rt = sz_mul (bucket_count rt) RT_LOAD_FACTOR_PCT_MIN div 100"
    and pi: "is_pow2 (init_buckets rt)" by (simp_all add: rt_inv_def)
  have "2 \<le> bucket_count rt" using pow2_pos[OF pi] assms(2) by simp
  then have h: "0 < bucket_count rt div 2" by simp
  have "shrink_at rt \<le> bucket_count rt * 25 div 100"
    unfolding s RT_LOAD_FACTOR_PCT_MIN_def using sz_mul_le[of "bucket_count rt" 25]
    by (rule div_le_mono)
  also have "\<dots> = bucket_count rt div 2 div 2" by (simp add: div_mult2_eq)
  also have "\<dots> < bucket_count rt div 2" using h by simp
  finally show ?thesis .
qed

lemma expand_at_lt:
  assumes "rt_inv rt"
  shows "expand_at rt < bucket_count rt"
proof -
  from assms have s: "expand_at rt = sz_mul (bucket_count rt) RT_LOAD_FACTOR_PCT_MAX div 100"
    and p: "is_pow2 (bucket_count rt)" by (simp_all add: rt_inv_def)
  have "0 < bucket_count rt" using p by (rule pow2_pos)
  then have "bucket_count rt * 75 < bucket_count rt * 100" by simp
  then have h: "bucket_count rt * 75 div 100 < bucket_count rt"
    by (rule less_mult_imp_div_less)
  have "expand_at rt \<le> bucket_count rt * 75 div 100"
    unfolding s RT_LOAD_FACTOR_PCT_MAX_def using sz_mul_le[of "bucket_count rt" 75]
    by (rule div_le_mono)
  with h show ?thesis by simp
qed

section \<open>Capacity policy\<close>

lemma next_pow2_ge_props:
  "is_pow2 (next_pow2_ge x) \<and> x \<le> next_pow2_ge x \<and> (1 \<le> x \<longrightarrow> next_pow2_ge x < 2 * x)"
proof (induction x rule: next_pow2_ge.induct)
  case (1 x)
  show ?case
  proof (cases "x \<le> 1")
    case True
    have "is_pow2 1" unfolding is_pow2_def by (rule exI[of _ 0]) simp
    then show ?thesis using True by (subst (1 2 3) next_pow2_ge.simps) auto
  next
    case False
    let ?h = "(x + 1) div 2"
    from 1[OF False] obtain k where k: "next_pow2_ge ?h = 2 ^ k"
      and le: "?h \<le> next_pow2_ge ?h" and lt: "1 \<le> ?h \<longrightarrow> next_pow2_ge ?h < 2 * ?h"
      by (auto simp: is_pow2_def)
    have e: "next_pow2_ge x = 2 * next_pow2_ge ?h" using False by (subst next_pow2_ge.simps) simp
    have "is_pow2 (next_pow2_ge x)" unfolding e k is_pow2_def by (rule exI[of _ "Suc k"]) simp
    moreover have "x \<le> next_pow2_ge x" using le unfolding e by linarith
    moreover have "next_pow2_ge x < 2 * x"
    proof -
      have h1: "1 \<le> ?h" using False by simp
      with lt have l: "next_pow2_ge ?h < 2 * ?h" by simp
      have "2 * ?h \<le> x + 1" by simp
      with l have "next_pow2_ge ?h < x + 1" by linarith
      moreover have "next_pow2_ge ?h \<noteq> x"
      proof
        assume a: "next_pow2_ge ?h = x"
        from a l have "x < 2 * ((x + 1) div 2)" by simp
        then have "odd x" by presburger
        then have "k = 0" using a k by (cases k) auto
        with a k False show False by simp
      qed
      ultimately have "next_pow2_ge ?h < x" by linarith
      then show ?thesis unfolding e by simp
    qed
    ultimately show ?thesis by blast
  qed
qed

lemma pow2_between_unique:
  assumes "is_pow2 r" "is_pow2 r'" "x \<le> r" "r < 2 * x" "x \<le> r'" "r' < 2 * x"
  shows "r = r'"
proof -
  from assms obtain a b where a: "r = 2 ^ a" and b: "r' = 2 ^ b" by (auto simp: is_pow2_def)
  have "(2::nat) ^ a < 2 ^ Suc b" using assms unfolding a b by simp
  then have 1: "a < Suc b" by (simp only: power_strict_increasing_iff)
  have "(2::nat) ^ b < 2 ^ Suc a" using assms unfolding a b by simp
  then have 2: "b < Suc a" by (simp only: power_strict_increasing_iff)
  from 1 2 show ?thesis unfolding a b by simp
qed

lemma next_pow2_ge_eqI:
  assumes "is_pow2 r" "x \<le> r" "r < 2 * x"
  shows "next_pow2_ge x = r"
proof -
  have "1 \<le> x" using assms pow2_pos[OF assms(1)] by linarith
  with next_pow2_ge_props[of x] assms show ?thesis
    using pow2_between_unique[of "next_pow2_ge x" r x] by simp
qed

lemma top_bits_step:
  assumes "top_bits L t n"
  shows "top_bits L (2 * t) (n OR drop_bit t n)"
  unfolding top_bits_def
proof (intro conjI allI impI)
  fix i assume "bit (n OR drop_bit t n) i"
  then have "bit n i \<or> bit n (t + i)" by (simp add: bit_or_iff bit_drop_bit_eq)
  with assms show "i < L" unfolding top_bits_def by fastforce
next
  fix i assume i: "L - 2 * t \<le> i \<and> i < L"
  show "bit (n OR drop_bit t n) i"
  proof (cases "L - t \<le> i")
    case True
    with assms i show ?thesis unfolding top_bits_def by (simp add: bit_or_iff)
  next
    case False
    then have "L - t \<le> t + i \<and> t + i < L" using i by linarith
    with assms have "bit n (t + i)" unfolding top_bits_def by blast
    then show ?thesis by (simp add: bit_or_iff bit_drop_bit_eq)
  qed
qed

lemma top_bits_full:
  assumes "top_bits L t n" "L \<le> t"
  shows "n = 2 ^ L - 1"
proof -
  have "bit n i \<longleftrightarrow> i < L" for i using assms unfolding top_bits_def by auto
  then have "n = mask L" by (intro bit_eqI) (simp add: bit_mask_iff)
  then show ?thesis by (simp add: mask_eq_exp_minus_1)
qed

lemma top_bits_init:
  assumes "n < 2 ^ L" "L = 0 \<or> 2 ^ (L - 1) \<le> n"
  shows "top_bits L 1 (n::nat)"
  unfolding top_bits_def
proof (intro conjI allI impI)
  fix i assume b: "bit n i"
  show "i < L"
  proof (rule ccontr)
    assume "\<not> i < L"
    then have "(2::nat) ^ L \<le> 2 ^ i" by simp
    with assms(1) have "n < 2 ^ i" by linarith
    then have "n div 2 ^ i = 0" by simp
    with b show False by (simp add: bit_iff_odd)
  qed
next
  fix i assume i: "L - 1 \<le> i \<and> i < L"
  then have L: "L \<noteq> 0" and e: "i = L - 1" by auto
  with assms have lo: "2 ^ (L - 1) \<le> n" by simp
  have "(2::nat) ^ L = 2 * 2 ^ (L - 1)" using L by (cases L) auto
  with assms(1) have hi: "n < 2 * 2 ^ (L - 1)" by simp
  have "n div 2 ^ (L - 1) = 1"
    using lo hi by (intro div_nat_eqI) simp_all
  then show "bit n i" unfolding e by (simp add: bit_iff_odd)
qed

lemma bit_length_ex: "\<exists>L. (n::nat) < 2 ^ L \<and> (L = 0 \<or> 2 ^ (L - 1) \<le> n)"
proof -
  define L where "L = (LEAST L. n < 2 ^ L)"
  have ex: "n < 2 ^ n" by (rule less_exp)
  then have 1: "n < 2 ^ L" unfolding L_def by (rule LeastI)
  have 2: "L = 0 \<or> 2 ^ (L - 1) \<le> n"
  proof (cases L)
    case 0
    then show ?thesis by simp
  next
    case (Suc j)
    then have "j < L" by simp
    then have "\<not> n < 2 ^ j" unfolding L_def by (rule not_less_Least)
    then show ?thesis using Suc by simp
  qed
  from 1 2 show ?thesis by blast
qed

lemma next_pow2_correct:
  assumes x: "1 \<le> x" "x \<le> 2 ^ 63"
  shows "robin_table_next_pow2 x = next_pow2_ge x"
proof -
  let ?n = "x - 1"
  have s: "sz_sub x 1 = ?n" using sz_sub_small[of 1 x] x by simp
  from bit_length_ex[of ?n] obtain L where L: "?n < 2 ^ L" "L = 0 \<or> 2 ^ (L - 1) \<le> ?n" by blast
  have L63: "L \<le> 63"
  proof (rule ccontr)
    assume "\<not> L \<le> 63"
    then have "63 \<le> L - 1" "L \<noteq> 0" by simp_all
    then have "(2::nat) ^ 63 \<le> 2 ^ (L - 1)" by (intro power_increasing) simp_all
    with L(2) \<open>L \<noteq> 0\<close> have "2 ^ 63 \<le> ?n" by linarith
    with x show False by simp
  qed
  define n1 where "n1 = ?n OR drop_bit 1 ?n"
  define n2 where "n2 = n1 OR drop_bit 2 n1"
  define n3 where "n3 = n2 OR drop_bit 4 n2"
  define n4 where "n4 = n3 OR drop_bit 8 n3"
  define n5 where "n5 = n4 OR drop_bit 16 n4"
  define n6 where "n6 = n5 OR drop_bit 32 n5"
  have t0: "top_bits L 1 ?n" using L by (rule top_bits_init)
  have t1: "top_bits L 2 n1" using top_bits_step[OF t0] by (simp add: n1_def)
  have t2: "top_bits L 4 n2" using top_bits_step[OF t1] by (simp add: n2_def)
  have t3: "top_bits L 8 n3" using top_bits_step[OF t2] by (simp add: n3_def)
  have t4: "top_bits L 16 n4" using top_bits_step[OF t3] by (simp add: n4_def)
  have t5: "top_bits L 32 n5" using top_bits_step[OF t4] by (simp add: n5_def)
  have t6: "top_bits L 64 n6" using top_bits_step[OF t5] by (simp add: n6_def)
  have n6: "n6 = 2 ^ L - 1" using t6 L63 by (intro top_bits_full[OF t6]) simp
  have pL: "(2::nat) ^ L \<le> 2 ^ 63" using L63 by (intro power_increasing) simp_all
  then have "n6 + 1 < 2 ^ 64" unfolding n6 by simp
  then have "sz_add n6 1 = 2 ^ L" using sz_add_small[of n6 1] n6 by simp
  then have r: "robin_table_next_pow2 x = 2 ^ L"
    unfolding robin_table_next_pow2_def Let_def s n6_def n5_def n4_def n3_def n2_def n1_def .
  have "is_pow2 (2 ^ L)" unfolding is_pow2_def by blast
  moreover have "x \<le> 2 ^ L" using L(1) by linarith
  moreover have "2 ^ L < 2 * x"
  proof (cases L)
    case 0
    then show ?thesis using x by simp
  next
    case (Suc j)
    with L(2) have "2 ^ j \<le> x - 1" by simp
    then show ?thesis using Suc x by simp
  qed
  ultimately show ?thesis unfolding r by (intro next_pow2_ge_eqI[symmetric])
qed

lemma pow2_dvd4:
  assumes "is_pow2 F" "4 \<le> F"
  shows "4 dvd F"
proof -
  from assms obtain k where k: "F = 2 ^ k" by (auto simp: is_pow2_def)
  have "2 \<le> k"
  proof (rule ccontr)
    assume "\<not> 2 \<le> k"
    then have "k = 0 \<or> k = 1" by auto
    with k assms(2) show False by auto
  qed
  then obtain j where "k = 2 + j" by (metis le_Suc_ex)
  then show ?thesis unfolding k by (simp add: power_add)
qed

lemma floor_simp: "n * 100 div 75 = n * 4 div (3::nat)"
proof -
  have "n * 100 div 75 = (25 * (n * 4)) div (25 * 3)" by (simp add: mult.commute)
  also have "\<dots> = n * 4 div 3" by (rule div_mult_mult1) simp
  finally show ?thesis .
qed

lemma ceil_simp: "(n * 100 + 74) div 75 = (n * 4 + 2) div (3::nat)"
proof -
  have "(n * 100 + 74) div (25 * 3) = ((n * 100 + 74) div 25) div 3"
    by (rule div_mult2_eq)
  then have "(n * 100 + 74) div 75 = ((n * 100 + 74) div 25) div 3" by simp
  moreover have "(n * 100 + 74) div 25 = n * 4 + 2" by simp
  ultimately show ?thesis by simp
qed

lemma ceil_floor_succ:
  "(m + 2) div 3 \<noteq> m div 3 \<Longrightarrow> (m + 2) div (3::nat) = m div 3 + 1"
  by linarith

lemma ceil_floor_dvd4:
  assumes "4 dvd m div 3" "m = n * 4" "(m + 2) div (3::nat) = m div 3 + 1"
  shows False
proof -
  have m: "m = 3 * (m div 3) + m mod 3" by simp
  have "4 dvd 3 * (m div 3)" using assms(1) by (rule dvd_mult)
  moreover have "4 dvd 3 * (m div 3) + m mod 3" using assms(2) m by (metis dvd_triv_right)
  ultimately have "4 dvd m mod 3" by (simp only: dvd_add_right_iff)
  moreover have "m mod 3 < 4" by (rule less_trans[of _ 3]) simp_all
  ultimately have "m mod 3 = 0" by (meson dvd_imp_le not_less not_gr_zero)
  then obtain q where q: "m = 3 * q" by (auto simp: mod_eq_0_iff_dvd)
  have "(m + 2) div 3 = m div 3" unfolding q by simp
  with assms(3) show False by simp
qed

lemma ceil_floor_32: "(n * 4 div 3 < 32) = ((n * 4 + 2) div 3 < (32::nat))"
proof -
  have "(n * 4 div 3 < 32) = (n * 4 < 32 * 3)" by (rule div_less_iff_less_mult) simp
  moreover have "((n * 4 + 2) div 3 < 32) = (n * 4 + 2 < 32 * 3)"
    by (rule div_less_iff_less_mult) simp
  moreover have "(n * 4 < 32 * 3) = (n * 4 + 2 < 32 * 3)" by presburger
  ultimately show ?thesis by simp
qed

lemma next_pow2_ge_ceil:
  assumes F: "F = n * 100 div 75" and C: "C = (n * 100 + 74) div 75" and ge: "32 \<le> F"
  shows "next_pow2_ge F = next_pow2_ge C"
proof (cases "C = F")
  case True
  then show ?thesis by simp
next
  case False
  have F': "F = n * 4 div 3" unfolding F by (rule floor_simp)
  have C': "C = (n * 4 + 2) div 3" unfolding C by (rule ceil_simp)
  have CF: "C = F + 1" using False ceil_floor_succ[of "n * 4"] unfolding F' C' by simp
  have np: "\<not> is_pow2 F"
  proof
    assume p: "is_pow2 F"
    with ge have "4 dvd F" by (intro pow2_dvd4) simp_all
    with ceil_floor_dvd4[of "n * 4" n] CF show False unfolding F' C' by simp
  qed
  from next_pow2_ge_props[of F] ge
  have r: "is_pow2 (next_pow2_ge F)" "F \<le> next_pow2_ge F" "next_pow2_ge F < 2 * F" by simp_all
  have "next_pow2_ge F \<noteq> F" using r(1) np by auto
  with r have "C \<le> next_pow2_ge F" "next_pow2_ge F < 2 * C" unfolding CF by simp_all
  from next_pow2_ge_eqI[OF r(1) this] show ?thesis by simp
qed

lemma calc_eq_target:
  assumes "n * 100 < 2 ^ 64"
  shows "robin_table_calc_bucket_count n = target_capacity n"
proof -
  let ?F = "n * 100 div 75" and ?C = "(n * 100 + 74) div 75"
  have s: "sz_mul n 100 = n * 100" using assms by (rule sz_mul_small)
  have lt: "?F < 32 \<longleftrightarrow> ?C < 32" unfolding floor_simp ceil_simp by (rule ceil_floor_32)
  show ?thesis
  proof (cases "?F < 32")
    case True
    then show ?thesis using lt
      by (simp add: robin_table_calc_bucket_count_def target_capacity_def s
          RT_LOAD_FACTOR_PCT_MAX_def RT_BUCKET_COUNT_MIN_def Let_def)
  next
    case False
    then have ge: "32 \<le> ?F" by simp
    have "?F \<le> 2 ^ 63" using assms by simp
    with ge have "robin_table_next_pow2 ?F = next_pow2_ge ?F"
      by (intro next_pow2_correct) simp_all
    also have "\<dots> = next_pow2_ge ?C" using ge by (intro next_pow2_ge_ceil) simp_all
    finally show ?thesis using False lt
      by (simp add: robin_table_calc_bucket_count_def target_capacity_def s
          RT_LOAD_FACTOR_PCT_MAX_def RT_BUCKET_COUNT_MIN_def Let_def)
  qed
qed

lemma calc_bucket_count_pow2:
  "is_pow2 (robin_table_calc_bucket_count n) \<and> 32 \<le> robin_table_calc_bucket_count n"
proof -
  let ?F = "sz_mul n 100 div 75"
  have p32: "is_pow2 32" unfolding is_pow2_def by (rule exI[of _ 5]) simp
  show ?thesis
  proof (cases "?F < 32")
    case True
    then show ?thesis using p32
      by (simp add: robin_table_calc_bucket_count_def RT_LOAD_FACTOR_PCT_MAX_def
          RT_BUCKET_COUNT_MIN_def Let_def)
  next
    case False
    then have ge: "32 \<le> ?F" by simp
    have "sz_mul n 100 < 2 ^ 64" by (simp add: sz_mul_def)
    then have "?F \<le> 2 ^ 63" by simp
    with ge have e: "robin_table_next_pow2 ?F = next_pow2_ge ?F"
      by (intro next_pow2_correct) simp_all
    from next_pow2_ge_props[of ?F] ge
    have "is_pow2 (next_pow2_ge ?F)" "32 \<le> next_pow2_ge ?F" by simp_all
    then show ?thesis using False e
      by (simp add: robin_table_calc_bucket_count_def RT_LOAD_FACTOR_PCT_MAX_def
          RT_BUCKET_COUNT_MIN_def Let_def)
  qed
qed

section \<open>The public operations\<close>

lemma calloc_Some: "calloc_buckets ok n = Some bs \<Longrightarrow> bs = replicate n zero_bucket \<and> ok \<and> n * sizeof_bucket < 2 ^ 64"
  by (auto simp: calloc_buckets_def split: if_splits)

lemma double_ok:
  assumes "rt_inv rt"
  shows "sz_mul (bucket_count rt) 2 = 2 * bucket_count rt" "is_pow2 (2 * bucket_count rt)"
    "2 * bucket_count rt < 2 ^ 64" "count rt < 2 * bucket_count rt"
    "init_buckets rt \<le> 2 * bucket_count rt"
proof -
  from assms have sz: "bucket_count rt * sizeof_bucket < 2 ^ 64" and p: "is_pow2 (bucket_count rt)"
    and c: "count rt < bucket_count rt" and i: "init_buckets rt \<le> bucket_count rt"
    by (simp_all add: rt_inv_def)
  show d: "2 * bucket_count rt < 2 ^ 64" using sz by (simp add: sizeof_bucket_def)
  then show "sz_mul (bucket_count rt) 2 = 2 * bucket_count rt"
    using sz_mul_small[of "bucket_count rt" 2] by (simp add: mult.commute)
  from p obtain k where "bucket_count rt = 2 ^ k" by (auto simp: is_pow2_def)
  then have "2 * bucket_count rt = 2 ^ Suc k" by simp
  then show "is_pow2 (2 * bucket_count rt)" unfolding is_pow2_def by blast
  show "count rt < 2 * bucket_count rt" using c by simp
  show "init_buckets rt \<le> 2 * bucket_count rt" using i by simp
qed

text \<open>What \<open>put0\<close> does to a valid table with room for one more entry.\<close>

lemma put0_correct:
  assumes inv: "rt_inv rt" and k: "k \<noteq> []" and room: "count rt + 1 < bucket_count rt"
  shows "\<exists>rt'. robin_table_put0 rt k (length k) v =
             Some (case contents rt k of None \<Rightarrow> v | Some v1 \<Rightarrow> v1, rt') \<and>
           rt_inv rt' \<and> same_config rt rt' \<and>
           contents rt' = (case contents rt k of None \<Rightarrow> (contents rt)(k \<mapsto> v)
                           | Some v1 \<Rightarrow> contents rt)"
proof (cases "contents rt k")
  case None
  from put0_absent_inv[OF inv None k room, of v] None show ?thesis by auto
next
  case (Some v1)
  from put0_present_inv[OF inv Some, of v] Some inv show ?thesis
    by (auto simp: same_config_refl)
qed

lemma put_grow_fail:
  assumes inv: "rt_inv rt" and n: "n \<noteq> 0" and full: "expand_at rt \<le> count rt"
    and al: "calloc_buckets ok (sz_mul (bucket_count rt) 2) = None"
  shows "robin_table_put ok rt k n v = Some (NULL, rt)"
proof -
  note d = double_ok[OF inv]
  have "robin_table_resize ok rt (sz_mul (bucket_count rt) 2) = Some (False, rt)"
    using resize_fail[of "2 * bucket_count rt" rt ok] d al by simp
  then show ?thesis using n full by (simp add: robin_table_put_def)
qed

lemma put_correct:
  assumes inv: "rt_inv rt" and k: "k \<noteq> []"
  shows "\<exists>r rt'. robin_table_put ok rt k (length k) v = Some (r, rt') \<and> rt_inv rt' \<and>
      init_buckets rt' = init_buckets rt \<and> seed rt' = seed rt \<and> hash_func rt' = hash_func rt \<and>
      (if expand_at rt \<le> count rt \<and> calloc_buckets ok (sz_mul (bucket_count rt) 2) = None
       then r = NULL \<and> rt' = rt
       else r = (case contents rt k of None \<Rightarrow> v | Some v1 \<Rightarrow> v1) \<and>
            contents rt' = (case contents rt k of None \<Rightarrow> (contents rt)(k \<mapsto> v)
                            | Some v1 \<Rightarrow> contents rt) \<and>
            bucket_count rt' =
              (if expand_at rt \<le> count rt then 2 * bucket_count rt else bucket_count rt))"
proof (cases "expand_at rt \<le> count rt")
  case False
  then have c: "count rt < expand_at rt" by simp
  with expand_at_lt[OF inv] have room: "count rt + 1 < bucket_count rt" by simp
  have e: "robin_table_put ok rt k (length k) v = robin_table_put0 rt k (length k) v"
    using k False by (simp add: robin_table_put_def)
  from put0_correct[OF inv k room, of v] show ?thesis
    unfolding e using False by (auto simp: same_config_def)
next
  case True
  note d = double_ok[OF inv]
  show ?thesis
  proof (cases "calloc_buckets ok (sz_mul (bucket_count rt) 2)")
    case None
    have n: "length k \<noteq> 0" using k by simp
    from put_grow_fail[OF inv n True None, of k v] True None inv show ?thesis by simp
  next
    case (Some nb)
    then have al: "calloc_buckets ok (2 * bucket_count rt) = Some nb" using d(1) by simp
    from resize_ok[OF inv d(2) d(4) d(5) al] obtain rt1 where
      r1: "robin_table_resize ok rt (2 * bucket_count rt) = Some (True, rt1)"
      and inv1: "rt_inv rt1" and bc1: "bucket_count rt1 = 2 * bucket_count rt"
      and i1: "init_buckets rt1 = init_buckets rt" and s1: "seed rt1 = seed rt"
      and h1: "hash_func rt1 = hash_func rt" and c1: "count rt1 = count rt"
      and ct1: "contents rt1 = contents rt" by blast
    from inv have "count rt < bucket_count rt" by (simp add: rt_inv_def)
    then have room: "count rt1 + 1 < bucket_count rt1" using c1 bc1 by simp
    have e: "robin_table_put ok rt k (length k) v = robin_table_put0 rt1 k (length k) v"
      using k True r1 d(1) by (simp add: robin_table_put_def)
    from put0_correct[OF inv1 k room, of v, unfolded ct1] show ?thesis
      unfolding e using True Some bc1 i1 s1 h1 by (auto simp: same_config_def)
  qed
qed

lemma del_absent:
  assumes inv: "rt_inv rt" and k: "k \<noteq> []" and ab: "contents rt k = None"
  shows "robin_table_del ok rt k (length k) = Some (NULL, rt)"
  using k ab get_bucket_correct[OF rt_inv_core[OF inv] k]
  by (simp add: robin_table_del_def contents_None)

lemma del_correct:
  assumes inv: "rt_inv rt" and k: "k \<noteq> []"
  shows "\<exists>r rt'. robin_table_del ok rt k (length k) = Some (r, rt') \<and> rt_inv rt' \<and>
      init_buckets rt' = init_buckets rt \<and> seed rt' = seed rt \<and> hash_func rt' = hash_func rt \<and>
      r = (case contents rt k of None \<Rightarrow> NULL | Some v \<Rightarrow> v) \<and>
      contents rt' = (contents rt)(k := None) \<and>
      count rt' = (case contents rt k of None \<Rightarrow> count rt | Some v \<Rightarrow> count rt - 1) \<and>
      (contents rt k \<noteq> None \<longrightarrow> 0 < count rt) \<and>
      bucket_count rt' =
        (if contents rt k \<noteq> None \<and> init_buckets rt < bucket_count rt \<and>
            count rt - 1 \<le> shrink_at rt \<and> ok
         then bucket_count rt div 2 else bucket_count rt)"
proof (cases "contents rt k")
  case None
  then have "(contents rt)(k := None) = contents rt" by auto
  with del_absent[OF inv k None, of ok] None inv show ?thesis by simp
next
  case (Some v)
  then obtain i where i: "find_slot (buckets rt) k = Some i" "val (buckets rt ! i) = v"
    by (auto simp: contents_def)
  from inv have len: "length (buckets rt) = bucket_count rt" by (simp add: rt_inv_def)
  from find_slot_Some[OF i(1)] len have ib: "i < bucket_count rt"
    and ki: "key (buckets rt ! i) = Some k" by simp_all
  from del_shift_inv[OF inv ib ki] obtain rt1 where
    ds: "del_shift rt i i = Some rt1" and inv1: "rt_inv rt1" and sc: "same_config rt rt1"
    and ct1: "contents rt1 = (contents rt)(k := None)" and c1: "count rt1 = count rt - 1"
    and c0: "0 < count rt" by blast
  from sc have bc1: "bucket_count rt1 = bucket_count rt" and i1: "init_buckets rt1 = init_buckets rt"
    and s1: "seed rt1 = seed rt" and h1: "hash_func rt1 = hash_func rt"
    by (simp_all add: same_config_def)
  from inv have ss: "shrink_at rt = sz_mul (bucket_count rt) RT_LOAD_FACTOR_PCT_MIN div 100"
    by (simp add: rt_inv_def)
  from inv1 have ss1: "shrink_at rt1 = sz_mul (bucket_count rt1) RT_LOAD_FACTOR_PCT_MIN div 100"
    by (simp add: rt_inv_def)
  have sh: "shrink_at rt1 = shrink_at rt" using ss ss1 bc1 by simp
  let ?shrink = "init_buckets rt1 < bucket_count rt1 \<and> count rt1 \<le> shrink_at rt1"
  have d0: "robin_table_del ok rt k (length k) =
      (if ?shrink
       then (case robin_table_resize ok rt1 (drop_bit 1 (bucket_count rt1)) of
               None \<Rightarrow> None | Some (resized, rt2) \<Rightarrow> Some (v, rt2))
       else Some (v, rt1))"
    using k get_bucket_correct[OF rt_inv_core[OF inv] k] i ds
    by (simp add: robin_table_del_def Let_def)
  show ?thesis
  proof (cases ?shrink)
    case False
    then have "robin_table_del ok rt k (length k) = Some (v, rt1)"
      unfolding d0 by (simp only: if_False)
    moreover have "\<not> (init_buckets rt < bucket_count rt \<and> count rt - 1 \<le> shrink_at rt)"
      using False bc1 i1 c1 sh by simp
    ultimately show ?thesis using inv1 i1 s1 h1 ct1 c1 c0 bc1 Some by auto
  next
    case True
    let ?bc = "bucket_count rt1 div 2"
    from inv1 have p: "is_pow2 (bucket_count rt1)" and pi: "is_pow2 (init_buckets rt1)"
      and sz: "bucket_count rt1 * sizeof_bucket < 2 ^ 64" by (simp_all add: rt_inv_def)
    from True have lt: "init_buckets rt1 < bucket_count rt1" by simp
    note ph = pow2_half[OF p pi lt]
    have cnt: "count rt1 < ?bc" using True shrink_at_lt[OF inv1 lt] by simp
    have db: "drop_bit 1 (bucket_count rt1) = ?bc" by (simp add: drop_bit_eq_div)
    have sz2: "?bc * sizeof_bucket < 2 ^ 64" using sz by (simp add: sizeof_bucket_def)
    have bc64: "?bc < 2 ^ 64" using sz2 by (simp add: sizeof_bucket_def)
    have d1: "robin_table_del ok rt k (length k) =
       (case robin_table_resize ok rt1 ?bc of
               None \<Rightarrow> None | Some (resized, rt2) \<Rightarrow> Some (v, rt2))"
      using True unfolding d0 db by (simp only: if_True simp_thms)
    show ?thesis
    proof (cases ok)
      case False
      then have "calloc_buckets ok ?bc = None" by (simp add: calloc_buckets_def)
      from resize_fail[OF ph(1) bc64 cnt this]
      have "robin_table_del ok rt k (length k) = Some (v, rt1)" unfolding d1 by simp
      then show ?thesis using inv1 i1 s1 h1 ct1 c1 c0 bc1 Some False by auto
    next
      case ok: True
      then have al: "calloc_buckets ok ?bc = Some (replicate ?bc zero_bucket)"
        using sz2 by (simp add: calloc_buckets_def)
      from resize_ok[OF inv1 ph(1) cnt ph(2) al] obtain rt2 where
        r2: "robin_table_resize ok rt1 ?bc = Some (True, rt2)" and inv2: "rt_inv rt2"
        and bc2: "bucket_count rt2 = ?bc" and i2: "init_buckets rt2 = init_buckets rt1"
        and s2: "seed rt2 = seed rt1" and h2: "hash_func rt2 = hash_func rt1"
        and c2: "count rt2 = count rt1" and ct2: "contents rt2 = contents rt1" by blast
      have "robin_table_del ok rt k (length k) = Some (v, rt2)"
        unfolding d1 using r2 by simp
      moreover have "init_buckets rt < bucket_count rt \<and> count rt - 1 \<le> shrink_at rt"
        using True bc1 i1 c1 sh by simp
      ultimately show ?thesis
        using inv2 i1 s1 h1 ct1 c1 c0 bc1 bc2 i2 s2 h2 c2 ct2 Some ok by auto
    qed
  qed
qed

lemma rt_inv_emptyI:
  assumes "buckets rt = replicate n zero_bucket" "count rt = 0" "bucket_count rt = n"
    "mask_rt rt = n - 1"
    "expand_at rt = sz_mul n RT_LOAD_FACTOR_PCT_MAX div 100"
    "shrink_at rt = sz_mul n RT_LOAD_FACTOR_PCT_MIN div 100"
    "is_pow2 n" "n * sizeof_bucket < 2 ^ 64" "is_pow2 (init_buckets rt)" "init_buckets rt \<le> n"
  shows "rt_inv rt"
  using assms pow2_pos[OF assms(7)] unfolding rt_inv_def by (simp add: empty_slots)

lemma pred_small:
  assumes "is_pow2 n" "n * sizeof_bucket < 2 ^ 64"
  shows "sz_sub n 1 = n - 1"
proof -
  have "1 \<le> n" using pow2_pos[OF assms(1)] by simp
  moreover have "n < 2 ^ 64" using assms(2) by (simp add: sizeof_bucket_def)
  ultimately show ?thesis by (rule sz_sub_small)
qed

lemma memset_zero_all: "memset_zero bs (length bs) = replicate (length bs) zero_bucket"
  by (simp add: memset_zero_def)

lemma clear_fail: "robin_table_clear False rt True = (False, rt)"
  by (simp add: robin_table_clear_def)

lemma clear_correct:
  assumes inv: "rt_inv rt" and ok: "ub \<longrightarrow> ok"
  shows "\<exists>rt'. robin_table_clear ok rt ub = (True, rt') \<and> rt_inv rt' \<and>
           contents rt' = Map.empty \<and> count rt' = 0 \<and>
           init_buckets rt' = init_buckets rt \<and> seed rt' = seed rt \<and>
           hash_func rt' = hash_func rt \<and>
           bucket_count rt' = (if ub then init_buckets rt else bucket_count rt)"
proof -
  from inv have len: "length (buckets rt) = bucket_count rt" and p: "is_pow2 (bucket_count rt)"
    and sz: "bucket_count rt * sizeof_bucket < 2 ^ 64" and pi: "is_pow2 (init_buckets rt)"
    and il: "init_buckets rt \<le> bucket_count rt" and mk: "mask_rt rt = bucket_count rt - 1"
    and ea: "expand_at rt = sz_mul (bucket_count rt) RT_LOAD_FACTOR_PCT_MAX div 100"
    and sa: "shrink_at rt = sz_mul (bucket_count rt) RT_LOAD_FACTOR_PCT_MIN div 100"
    by (simp_all add: rt_inv_def)
  show ?thesis
  proof (cases ub)
    case False
    let ?rt' = "rt\<lparr>count := 0, buckets := memset_zero (buckets rt) (bucket_count rt)\<rparr>"
    have b: "buckets ?rt' = replicate (bucket_count rt) zero_bucket"
      using memset_zero_all[of "buckets rt"] len by simp
    have "rt_inv ?rt'"
      by (rule rt_inv_emptyI[where n="bucket_count rt"]) (use b p sz pi il mk ea sa in simp_all)
    moreover have "contents ?rt' = Map.empty"
      using contents_empty[OF b] by (intro ext) simp
    moreover have "robin_table_clear ok rt ub = (True, ?rt')"
      using False by (simp add: robin_table_clear_def)
    ultimately show ?thesis using False by simp
  next
    case True
    let ?n = "init_buckets rt"
    have sz': "?n * sizeof_bucket < 2 ^ 64" using il sz
      by (meson le_less_trans mult_le_mono1)
    have nb: "sz_mul ?n sizeof_bucket div sizeof_bucket = ?n"
      using sz_mul_small[OF sz'] by (simp add: sizeof_bucket_def)
    let ?rt' = "rt\<lparr>buckets := replicate ?n zero_bucket, bucket_count := ?n,
                      mask_rt := sz_sub ?n 1,
                      expand_at := sz_mul ?n RT_LOAD_FACTOR_PCT_MAX div 100,
                      shrink_at := sz_mul ?n RT_LOAD_FACTOR_PCT_MIN div 100,
                      count := 0, buckets := replicate ?n zero_bucket\<rparr>"
    have e: "robin_table_clear ok rt ub = (True, ?rt')"
      using True ok memset_zero_all[of "replicate ?n zero_bucket"]
      by (simp add: robin_table_clear_def Let_def nb)
    have b: "buckets ?rt' = replicate ?n zero_bucket" by simp
    have "rt_inv ?rt'"
      by (rule rt_inv_emptyI[where n="?n"]) (use pi sz' pred_small[OF pi sz'] in simp_all)
    moreover have "contents ?rt' = Map.empty"
      using contents_empty[OF b] by (intro ext) simp
    ultimately show ?thesis using e True by simp
  qed
qed

lemma create_correct:
  assumes "robin_table_create ok_rt ok_buckets dflt cnt hf sd = Some rt"
  shows "rt_inv rt" "contents rt = Map.empty" "count rt = 0"
    "bucket_count rt = robin_table_calc_bucket_count cnt"
    "init_buckets rt = robin_table_calc_bucket_count cnt"
    "length (buckets rt) = robin_table_calc_bucket_count cnt"
    "seed rt = sd" "hash_func rt = (case hf of None \<Rightarrow> dflt | Some f \<Rightarrow> f)"
proof -
  let ?n = "robin_table_calc_bucket_count cnt"
  from assms obtain bs where al: "calloc_buckets ok_buckets ?n = Some bs"
    and rt: "rt = \<lparr>buckets = bs, count = 0, bucket_count = ?n, init_buckets = ?n,
                  mask_rt = sz_sub ?n 1,
                  expand_at = sz_mul ?n RT_LOAD_FACTOR_PCT_MAX div 100,
                  shrink_at = sz_mul ?n RT_LOAD_FACTOR_PCT_MIN div 100,
                  seed = sd,
                  hash_func = (case hf of None \<Rightarrow> dflt | Some f \<Rightarrow> f)\<rparr>"
    by (auto simp: robin_table_create_def Let_def split: if_splits option.splits)
  from calloc_Some[OF al] have bs: "bs = replicate ?n zero_bucket"
    and sz: "?n * sizeof_bucket < 2 ^ 64" by simp_all
  from calc_bucket_count_pow2[of cnt] have p: "is_pow2 ?n" by simp
  have b: "buckets rt = replicate ?n zero_bucket" using rt bs by simp
  show "rt_inv rt"
    by (rule rt_inv_emptyI[where n="?n"]) (use rt bs p sz pred_small[OF p sz] in simp_all)
  show "contents rt = Map.empty" using contents_empty[OF b] by (intro ext) simp
  show "count rt = 0" "bucket_count rt = ?n" "init_buckets rt = ?n" "seed rt = sd"
    "hash_func rt = (case hf of None \<Rightarrow> dflt | Some f \<Rightarrow> f)"
    using rt by simp_all
  show "length (buckets rt) = ?n" using b by simp
qed

lemma create_Some:
  assumes "ok_rt" "ok_buckets" "robin_table_calc_bucket_count cnt * sizeof_bucket < 2 ^ 64"
  shows "\<exists>rt. robin_table_create ok_rt ok_buckets dflt cnt hf sd = Some rt"
  using assms by (simp add: robin_table_create_def calloc_buckets_def Let_def)

section \<open>Runs of operations\<close>

lemma sim_fields:
  assumes "sim a b"
  shows "count a = count b" "expand_at a = expand_at b" "shrink_at a = shrink_at b"
proof -
  from assms have ia: "rt_inv a" and ib: "rt_inv b" and ct: "contents a = contents b"
    and bc: "bucket_count a = bucket_count b" by (simp_all add: sim_def)
  show "count a = count b" using rt_inv_count[OF ia] rt_inv_count[OF ib] ct by simp
  from ia have "expand_at a = sz_mul (bucket_count a) RT_LOAD_FACTOR_PCT_MAX div 100"
    "shrink_at a = sz_mul (bucket_count a) RT_LOAD_FACTOR_PCT_MIN div 100"
    by (simp_all add: rt_inv_def)
  moreover from ib have "expand_at b = sz_mul (bucket_count b) RT_LOAD_FACTOR_PCT_MAX div 100"
    "shrink_at b = sz_mul (bucket_count b) RT_LOAD_FACTOR_PCT_MIN div 100"
    by (simp_all add: rt_inv_def)
  ultimately show "expand_at a = expand_at b" "shrink_at a = shrink_at b" using bc by simp_all
qed

lemma apply_op_inv:
  assumes inv: "rt_inv rt" and ok: "op_ok x"
  shows "\<exists>r rt'. apply_op rt x = Some (r, rt') \<and> rt_inv rt' \<and>
           init_buckets rt' = init_buckets rt \<and> seed rt' = seed rt \<and>
           hash_func rt' = hash_func rt \<and>
           (\<forall>k. \<not> touches k x \<longrightarrow> contents rt' k = contents rt k)"
proof (cases x)
  case (Put okf k n v)
  with ok have k: "k \<noteq> []" "n = length k" by simp_all
  from put_correct[OF inv k(1), of okf v] obtain r rt' where
    p: "robin_table_put okf rt k (length k) v = Some (r, rt')" and i: "rt_inv rt'"
    and f: "init_buckets rt' = init_buckets rt" "seed rt' = seed rt" "hash_func rt' = hash_func rt"
    and c: "if expand_at rt \<le> count rt \<and> calloc_buckets okf (sz_mul (bucket_count rt) 2) = None
       then r = NULL \<and> rt' = rt
       else r = (case contents rt k of None \<Rightarrow> v | Some v1 \<Rightarrow> v1) \<and>
            contents rt' = (case contents rt k of None \<Rightarrow> (contents rt)(k \<mapsto> v)
                            | Some v1 \<Rightarrow> contents rt) \<and>
            bucket_count rt' =
              (if expand_at rt \<le> count rt then 2 * bucket_count rt else bucket_count rt)"
    by blast
  have "contents rt' k' = contents rt k'" if "k' \<noteq> k" for k'
    using c that by (auto split: if_splits option.splits)
  then show ?thesis using Put k p i f by auto
next
  case (Get k n)
  with ok have k: "k \<noteq> []" "n = length k" by simp_all
  from get_correct[OF rt_inv_core[OF inv] k(1)] show ?thesis using Get k inv by simp
next
  case (Del okf k n)
  with ok have k: "k \<noteq> []" "n = length k" by simp_all
  from del_correct[OF inv k(1), of okf] obtain r rt' where
    p: "robin_table_del okf rt k (length k) = Some (r, rt')" and i: "rt_inv rt'"
    and f: "init_buckets rt' = init_buckets rt" "seed rt' = seed rt" "hash_func rt' = hash_func rt"
    and c: "contents rt' = (contents rt)(k := None)" by blast
  then show ?thesis using Del k by auto
next
  case (Clear okf ub)
  show ?thesis
  proof (cases "ub \<and> \<not> okf")
    case True
    then show ?thesis using Clear inv clear_fail[of rt] by simp
  next
    case False
    then have "ub \<longrightarrow> okf" by simp
    from clear_correct[OF inv this] show ?thesis using Clear by auto
  qed
qed

lemma run_ops_inv:
  "rt_inv rt \<Longrightarrow> \<forall>x\<in>set xs. op_ok x \<Longrightarrow>
   \<exists>obs rt'. run_ops rt xs = Some (obs, rt') \<and> rt_inv rt' \<and>
      init_buckets rt' = init_buckets rt \<and> seed rt' = seed rt \<and> hash_func rt' = hash_func rt \<and>
      (\<forall>k. (\<forall>x\<in>set xs. \<not> touches k x) \<longrightarrow> contents rt' k = contents rt k)"
proof (induction xs arbitrary: rt)
  case Nil
  then show ?case by simp
next
  case (Cons x xs)
  from Cons.prems have okx: "op_ok x" and okxs: "\<forall>x\<in>set xs. op_ok x" by simp_all
  from apply_op_inv[OF Cons.prems(1) okx] obtain r rt1 where
    a: "apply_op rt x = Some (r, rt1)" and i1: "rt_inv rt1"
    and f1: "init_buckets rt1 = init_buckets rt" "seed rt1 = seed rt" "hash_func rt1 = hash_func rt"
    and c1: "\<forall>k. \<not> touches k x \<longrightarrow> contents rt1 k = contents rt k" by blast
  from Cons.IH[OF i1 okxs] obtain obs rt' where
    r: "run_ops rt1 xs = Some (obs, rt')" and i': "rt_inv rt'"
    and f': "init_buckets rt' = init_buckets rt1" "seed rt' = seed rt1"
      "hash_func rt' = hash_func rt1"
    and c': "\<forall>k. (\<forall>x\<in>set xs. \<not> touches k x) \<longrightarrow> contents rt' k = contents rt1 k" by blast
  have "run_ops rt (x # xs) = Some ((r, robin_table_count rt1) # obs, rt')" using a r by simp
  moreover have "\<forall>k. (\<forall>y\<in>set (x # xs). \<not> touches k y) \<longrightarrow> contents rt' k = contents rt k"
    using c1 c' by simp
  ultimately show ?case using i' f1 f' by simp
qed

lemma apply_op_sim:
  assumes s: "sim a b" and ok: "op_ok x"
  shows "\<exists>r a' b'. apply_op a x = Some (r, a') \<and> apply_op b x = Some (r, b') \<and> sim a' b'"
proof -
  from s have ia: "rt_inv a" and ib: "rt_inv b" and ct: "contents a = contents b"
    and bc: "bucket_count a = bucket_count b" and ini: "init_buckets a = init_buckets b"
    by (simp_all add: sim_def)
  note sf = sim_fields[OF s]
  show ?thesis
  proof (cases x)
    case (Put okf k n v)
    with ok have k: "k \<noteq> []" "n = length k" by simp_all
    from put_correct[OF ia k(1), of okf v] obtain ra a' where
      pa: "robin_table_put okf a k (length k) v = Some (ra, a')" and ia': "rt_inv a'"
      and fa: "init_buckets a' = init_buckets a"
      and ca: "if expand_at a \<le> count a \<and> calloc_buckets okf (sz_mul (bucket_count a) 2) = None
       then ra = NULL \<and> a' = a
       else ra = (case contents a k of None \<Rightarrow> v | Some v1 \<Rightarrow> v1) \<and>
            contents a' = (case contents a k of None \<Rightarrow> (contents a)(k \<mapsto> v)
                            | Some v1 \<Rightarrow> contents a) \<and>
            bucket_count a' =
              (if expand_at a \<le> count a then 2 * bucket_count a else bucket_count a)"
      by blast
    from put_correct[OF ib k(1), of okf v] obtain rb b' where
      pb: "robin_table_put okf b k (length k) v = Some (rb, b')" and ib': "rt_inv b'"
      and fb: "init_buckets b' = init_buckets b"
      and cb: "if expand_at b \<le> count b \<and> calloc_buckets okf (sz_mul (bucket_count b) 2) = None
       then rb = NULL \<and> b' = b
       else rb = (case contents b k of None \<Rightarrow> v | Some v1 \<Rightarrow> v1) \<and>
            contents b' = (case contents b k of None \<Rightarrow> (contents b)(k \<mapsto> v)
                            | Some v1 \<Rightarrow> contents b) \<and>
            bucket_count b' =
              (if expand_at b \<le> count b then 2 * bucket_count b else bucket_count b)"
      by blast
    have "ra = rb \<and> sim a' b'"
    proof (cases "expand_at a \<le> count a \<and> calloc_buckets okf (sz_mul (bucket_count a) 2) = None")
      case True
      with ca cb sf bc s show ?thesis by simp
    next
      case False
      with ca cb sf bc ct have "ra = rb" "contents a' = contents b'"
        "bucket_count a' = bucket_count b'" by (simp_all split: option.splits)
      then show ?thesis using ia' ib' fa fb ini by (simp add: sim_def)
    qed
    then show ?thesis using Put k pa pb by auto
  next
    case (Get k n)
    with ok have k: "k \<noteq> []" "n = length k" by simp_all
    from get_correct[OF rt_inv_core[OF ia] k(1)] get_correct[OF rt_inv_core[OF ib] k(1)]
    show ?thesis using Get k ct s by simp
  next
    case (Del okf k n)
    with ok have k: "k \<noteq> []" "n = length k" by simp_all
    from del_correct[OF ia k(1), of okf] obtain ra a' where
      pa: "robin_table_del okf a k (length k) = Some (ra, a')" and ia': "rt_inv a'"
      and fa: "init_buckets a' = init_buckets a"
      and ra: "ra = (case contents a k of None \<Rightarrow> NULL | Some v \<Rightarrow> v)"
      and ca: "contents a' = (contents a)(k := None)"
      and ba: "bucket_count a' =
        (if contents a k \<noteq> None \<and> init_buckets a < bucket_count a \<and>
            count a - 1 \<le> shrink_at a \<and> okf
         then bucket_count a div 2 else bucket_count a)" by blast
    from del_correct[OF ib k(1), of okf] obtain rb b' where
      pb: "robin_table_del okf b k (length k) = Some (rb, b')" and ib': "rt_inv b'"
      and fb: "init_buckets b' = init_buckets b"
      and rb: "rb = (case contents b k of None \<Rightarrow> NULL | Some v \<Rightarrow> v)"
      and cb: "contents b' = (contents b)(k := None)"
      and bb: "bucket_count b' =
        (if contents b k \<noteq> None \<and> init_buckets b < bucket_count b \<and>
            count b - 1 \<le> shrink_at b \<and> okf
         then bucket_count b div 2 else bucket_count b)" by blast
    have "ra = rb" using ra rb ct by simp
    moreover have "sim a' b'"
      unfolding sim_def using ia' ib' ca cb ct fa fb ini ba bb bc sf by auto
    ultimately show ?thesis using Del k pa pb by auto
  next
    case (Clear okf ub)
    show ?thesis
    proof (cases "ub \<and> \<not> okf")
      case True
      then show ?thesis using Clear s clear_fail[of a] clear_fail[of b] by simp
    next
      case False
      then have u: "ub \<longrightarrow> okf" by simp
      from clear_correct[OF ia u] obtain a' where
        pa: "robin_table_clear okf a ub = (True, a')" and ia': "rt_inv a'"
        and ca: "contents a' = Map.empty" and fa: "init_buckets a' = init_buckets a"
        and ba: "bucket_count a' = (if ub then init_buckets a else bucket_count a)" by blast
      from clear_correct[OF ib u] obtain b' where
        pb: "robin_table_clear okf b ub = (True, b')" and ib': "rt_inv b'"
        and cb: "contents b' = Map.empty" and fb: "init_buckets b' = init_buckets b"
        and bb: "bucket_count b' = (if ub then init_buckets b else bucket_count b)" by blast
      have "sim a' b'" unfolding sim_def using ia' ib' ca cb fa fb ba bb ini bc by simp
      then show ?thesis using Clear pa pb by simp
    qed
  qed
qed

lemma run_ops_sim:
  "sim a b \<Longrightarrow> \<forall>x\<in>set xs. op_ok x \<Longrightarrow>
   \<exists>obs a' b'. run_ops a xs = Some (obs, a') \<and> run_ops b xs = Some (obs, b') \<and> sim a' b'"
proof (induction xs arbitrary: a b)
  case Nil
  then show ?case by simp
next
  case (Cons x xs)
  from Cons.prems have okx: "op_ok x" and okxs: "\<forall>x\<in>set xs. op_ok x" by simp_all
  from apply_op_sim[OF Cons.prems(1) okx] obtain r a1 b1 where
    a: "apply_op a x = Some (r, a1)" and b: "apply_op b x = Some (r, b1)" and s1: "sim a1 b1"
    by blast
  from Cons.IH[OF s1 okxs] obtain obs a' b' where
    ra: "run_ops a1 xs = Some (obs, a')" and rb: "run_ops b1 xs = Some (obs, b')"
    and s': "sim a' b'" by blast
  have "count a1 = count b1" using sim_fields(1)[OF s1] .
  then show ?case using a b ra rb s' by (simp add: robin_table_count_def)
qed

lemma psl_distance:
  assumes "(h + p) mod n = i" "p < (n::nat)"
  shows "int p = (int i - int (h mod n)) mod int n"
proof -
  have "int i = int ((h + p) mod n)" using assms(1) by simp
  then have i: "int i = (int h + int p) mod int n" by (simp add: zmod_int)
  have hm: "int (h mod n) = int h mod int n" by (simp add: zmod_int)
  have "(int i - int (h mod n)) mod int n = (int h + int p - int h) mod int n"
    unfolding i hm by (rule mod_diff_eq)
  also have "\<dots> = int p" using assms(2) by simp
  finally show ?thesis by simp
qed

section \<open>Evaluation on concrete tables\<close>

lemma get_loop_hit:
  assumes "idx < length (buckets rt)" "key_match (buckets rt ! idx) h k n = Some True"
  shows "get_bucket_loop rt k n h idx p = Some (Some idx)"
  using get_loop_step[OF assms] by simp

lemma get_loop_miss:
  assumes "idx < length (buckets rt)" "key_match (buckets rt ! idx) h k n = Some False"
  shows "get_bucket_loop rt k n h idx p =
      (if key (buckets rt ! idx) = None \<or> psl (buckets rt ! idx) < p then Some None
       else get_bucket_loop rt k n h (sz_add idx 1 AND mask_rt rt) (sz_add p 1))"
  using get_loop_step[OF assms] by simp

lemma del_shift_stop_ev:
  assumes "sz_add b 1 AND mask_rt rt < length (buckets rt)" "b < length (buckets rt)"
    "key (buckets rt ! (sz_add b 1 AND mask_rt rt)) = None \<or>
     psl (buckets rt ! (sz_add b 1 AND mask_rt rt)) = 0"
  shows "del_shift rt b b =
     Some (rt\<lparr>buckets := (buckets rt)[b := zero_bucket], count := sz_sub (count rt) 1\<rparr>)"
  using del_shift_stop[OF refl assms] .

lemma del_shift_step_ev:
  assumes "sz_add b 1 AND mask_rt rt < length (buckets rt)" "b < length (buckets rt)"
    "key (buckets rt ! (sz_add b 1 AND mask_rt rt)) \<noteq> None"
    "psl (buckets rt ! (sz_add b 1 AND mask_rt rt)) \<noteq> 0"
  shows "del_shift rt b b =
     del_shift (rt\<lparr>buckets :=
        ((buckets rt)[sz_add b 1 AND mask_rt rt :=
            (buckets rt ! (sz_add b 1 AND mask_rt rt))
              \<lparr>psl := sz_sub (psl (buckets rt ! (sz_add b 1 AND mask_rt rt))) 1\<rparr>])
          [b := ((buckets rt)[sz_add b 1 AND mask_rt rt :=
            (buckets rt ! (sz_add b 1 AND mask_rt rt))
              \<lparr>psl := sz_sub (psl (buckets rt ! (sz_add b 1 AND mask_rt rt))) 1\<rparr>]) !
                (sz_add b 1 AND mask_rt rt)]\<rparr>)
       (sz_add b 1 AND mask_rt rt) (sz_add b 1 AND mask_rt rt)"
  using del_shift_step[OF refl assms] .

lemma table0_eq:
  "table0 = \<lparr>buckets = replicate 32 zero_bucket, count = 0, bucket_count = 32, init_buckets = 32,
      mask_rt = 31, expand_at = 24, shrink_at = 8, seed = 0, hash_func = first_byte_hash\<rparr>"
  by (simp add: table0_def robin_table_create_def robin_table_calc_bucket_count_def
      calloc_buckets_def sizeof_bucket_def RT_BUCKET_COUNT_MIN_def RT_LOAD_FACTOR_PCT_MAX_def
      RT_LOAD_FACTOR_PCT_MIN_def sz_sub_def sz_mul_def Let_def)

lemma table2_eq:
  "table2 = \<lparr>buckets = (replicate 32 zero_bucket)
        [1 := \<lparr>key = Some [1], val = 5, psl = 0, klen = 1, hash = 1\<rparr>,
         2 := \<lparr>key = Some [33], val = 7, psl = 1, klen = 1, hash = 33\<rparr>],
      count = 2, bucket_count = 32, init_buckets = 32,
      mask_rt = 31, expand_at = 24, shrink_at = 8, seed = 0, hash_func = first_byte_hash\<rparr>"
  unfolding table2_def table0_eq
  by (simp add: robin_table_put_def robin_table_put0_def Let_def first_byte_hash_def
      put0_empty put0_step key_match_def memcmp_eq_def sz_add_def zero_bucket_key
      numeral_2_eq_2[symmetric])

lemma table2_find: "robin_table_get_bucket table2 [1] 1 = Some (Some 1)"
  unfolding table2_eq
  by (simp add: robin_table_get_bucket_def Let_def first_byte_hash_def get_loop_hit
      key_match_def memcmp_eq_def)

lemma create0: "robin_table_create True True first_byte_hash 0 None 0 = Some table0"
  by (simp add: table0_def robin_table_create_def robin_table_calc_bucket_count_def
      calloc_buckets_def sizeof_bucket_def RT_BUCKET_COUNT_MIN_def RT_LOAD_FACTOR_PCT_MAX_def
      sz_mul_def Let_def)

lemma createZ: "robin_table_create True True first_byte_hash 0 (Some zero_hash) 7 = Some tableZ"
  by (simp add: tableZ_def robin_table_create_def robin_table_calc_bucket_count_def
      calloc_buckets_def sizeof_bucket_def RT_BUCKET_COUNT_MIN_def RT_LOAD_FACTOR_PCT_MAX_def
      sz_mul_def Let_def)

lemma table0_inv: "rt_inv table0"
  using create0 by (rule create_correct(1))

lemma table0_contents: "contents table0 k = None"
  using create_correct(2)[OF create0] by simp

lemma table0_fields: "count table0 = 0" "expand_at table0 = 24" "bucket_count table0 = 32"
  "init_buckets table0 = 32"
  by (simp_all add: table0_eq)

lemma table1_put:
  "robin_table_put True table0 [1] 1 5 = Some (5, table1)" "rt_inv table1"
  "contents table1 = [[1] \<mapsto> 5]" "count table1 = 1"
proof -
  have k: "[1::byte] \<noteq> []" by simp
  from put_correct[OF table0_inv k, of True 5] obtain r rt' where
    p: "robin_table_put True table0 [1] (length [1::byte]) 5 = Some (r, rt')"
    and i: "rt_inv rt'"
    and c: "if expand_at table0 \<le> count table0 \<and>
               calloc_buckets True (sz_mul (bucket_count table0) 2) = None
       then r = NULL \<and> rt' = table0
       else r = (case contents table0 [1] of None \<Rightarrow> 5 | Some v1 \<Rightarrow> v1) \<and>
            contents rt' = (case contents table0 [1] of None \<Rightarrow> (contents table0)([1] \<mapsto> 5)
                            | Some v1 \<Rightarrow> contents table0) \<and>
            bucket_count rt' =
              (if expand_at table0 \<le> count table0 then 2 * bucket_count table0
               else bucket_count table0)"
    by blast
  from c have r: "r = 5" and ct: "contents rt' = (contents table0)([1] \<mapsto> 5)"
    by (simp_all add: table0_fields table0_contents)
  have t: "table1 = rt'" using p by (simp add: table1_def)
  show "robin_table_put True table0 [1] 1 5 = Some (5, table1)" using p r t by simp
  show "rt_inv table1" using i t by simp
  show c1: "contents table1 = [[1] \<mapsto> 5]" using ct t table0_contents by (intro ext) simp
  show "count table1 = 1" using rt_inv_count[OF \<open>rt_inv table1\<close>] c1 by simp
qed

lemma finite_dom_contents: "finite (dom (contents rt))"
  unfolding dom_contents by simp

lemma fill_props:
  assumes inv: "rt_inv rt" and emp: "contents rt = Map.empty"
  shows "i \<le> expand_at rt \<Longrightarrow>
     rt_inv (fill rt i) \<and> bucket_count (fill rt i) = bucket_count rt \<and> count (fill rt i) = i \<and>
     dom (contents (fill rt i)) = (\<lambda>j. replicate j (0::byte)) ` {1..i} \<and>
     (1 \<le> i \<longrightarrow> contents (fill rt i) [0] = Some 100)"
proof (induction i)
  case 0
  then show ?case using inv emp rt_inv_count[OF inv] by simp
next
  case (Suc i)
  let ?s = "fill rt i" and ?k = "replicate (Suc i) (0::byte)"
  from Suc have ih: "rt_inv ?s" "bucket_count ?s = bucket_count rt" "count ?s = i"
    "dom (contents ?s) = (\<lambda>j. replicate j (0::byte)) ` {1..i}"
    "1 \<le> i \<longrightarrow> contents ?s [0] = Some 100" by simp_all
  from inv have ea: "expand_at rt = sz_mul (bucket_count rt) RT_LOAD_FACTOR_PCT_MAX div 100"
    by (simp add: rt_inv_def)
  from ih(1) have es: "expand_at ?s = sz_mul (bucket_count ?s) RT_LOAD_FACTOR_PCT_MAX div 100"
    by (simp add: rt_inv_def)
  have ng: "\<not> expand_at ?s \<le> count ?s" using Suc.prems ih(2,3) ea es by simp
  have k: "?k \<noteq> []" by simp
  have "?k \<notin> dom (contents ?s)"
  proof
    assume "?k \<in> dom (contents ?s)"
    then obtain j where "j \<in> {1..i}" "?k = replicate j 0" unfolding ih(4) by blast
    then have "length ?k = j" "j \<le> i" by simp_all
    then show False by simp
  qed
  then have ab: "contents ?s ?k = None" by auto
  from put_correct[OF ih(1) k, of True "100 + i"] ng ab obtain r rt' where
    p: "robin_table_put True ?s ?k (length ?k) (100 + i) = Some (r, rt')" and i': "rt_inv rt'"
    and ct: "contents rt' = (contents ?s)(?k \<mapsto> 100 + i)"
    and bc: "bucket_count rt' = bucket_count ?s" by auto
  have f: "fill rt (Suc i) = rt'" using p by simp
  have d: "dom (contents rt') = insert ?k (dom (contents ?s))" unfolding ct by simp
  have "count rt' = card (dom (contents rt'))" using i' by (rule rt_inv_count)
  also have "\<dots> = Suc (card (dom (contents ?s)))"
    unfolding d using \<open>?k \<notin> dom (contents ?s)\<close> finite_dom_contents by simp
  also have "\<dots> = Suc i" using rt_inv_count[OF ih(1)] ih(3) by simp
  finally have c: "count rt' = Suc i" .
  have dm: "dom (contents rt') = (\<lambda>j. replicate j (0::byte)) ` {1..Suc i}"
    unfolding d ih(4) by (auto simp: atLeastAtMostSuc_conv)
  have z: "contents rt' [0] = Some 100"
  proof (cases i)
    case 0
    then show ?thesis unfolding ct by simp
  next
    case (Suc j)
    then have "?k \<noteq> [0]" by simp
    then show ?thesis unfolding ct using ih(5) Suc by simp
  qed
  show ?case unfolding f using i' bc ih(2) c dm z by simp
qed

lemma table24_props:
  "rt_inv table24" "count table24 = 24" "expand_at table24 = 24" "bucket_count table24 = 32"
  "contents table24 [0] = Some 100" "contents table24 [9] = None"
proof -
  have e: "contents table0 = Map.empty" using table0_contents by (intro ext) simp
  from fill_props[OF table0_inv e, of 24]
  have p: "rt_inv table24" "bucket_count table24 = 32" "count table24 = 24"
    "dom (contents table24) = (\<lambda>j. replicate j (0::byte)) ` {1..24}"
    "contents table24 [0] = Some 100"
    unfolding table24_def by (simp_all add: table0_fields)
  show "rt_inv table24" "count table24 = 24" "bucket_count table24 = 32"
    "contents table24 [0] = Some 100" using p by simp_all
  from p(1) have "expand_at table24 = sz_mul (bucket_count table24) RT_LOAD_FACTOR_PCT_MAX div 100"
    by (simp add: rt_inv_def)
  then show "expand_at table24 = 24"
    unfolding p(2) by (simp add: sz_mul_def RT_LOAD_FACTOR_PCT_MAX_def)
  have "[9::byte] \<notin> dom (contents table24)"
  proof
    assume "[9::byte] \<in> dom (contents table24)"
    then obtain j where "[9::byte] = replicate j 0" unfolding p(4) by blast
    then show False by (cases j) auto
  qed
  then show "contents table24 [9] = None" by auto
qed

lemma rt_inv_psl: "rt_inv rt \<Longrightarrow> psl_invariant rt"
  unfolding psl_invariant_def
proof (intro allI impI)
  fix i assume inv: "rt_inv rt" and i: "i < bucket_count rt" and o: "key (buckets rt ! i) \<noteq> None"
  let ?b = "buckets rt ! i" and ?n = "bucket_count rt"
  from inv have len: "length (buckets rt) = ?n"
    and wf: "wf_slots (hash_func rt) (seed rt) (buckets rt)"
    and p2: "is_pow2 ?n" and mask: "mask_rt rt = ?n - 1" by (simp_all add: rt_inv_def)
  from o obtain k where k: "key ?b = Some k" by auto
  have il: "i < length (buckets rt)" using i len by simp
  note s = slot_okD[OF wf il k]
  have id: "unat (hash ?b) AND mask_rt rt = unat (hash ?b) mod ?n"
    using ideal_idx[OF p2] mask by simp
  have "int (psl ?b) = (int i - int (unat (hash ?b) mod ?n)) mod int ?n"
    using s(5) s(4) len by (intro psl_distance) simp_all
  then show "int (psl ?b) = (int i - int (unat (hash ?b) AND mask_rt rt)) mod int ?n \<and>
        (\<exists>k. key ?b = Some k \<and> hash ?b = hash_func rt k (klen ?b) (seed rt))"
    unfolding id using k s(2,3) by simp
qed

section \<open>The properties of the specification\<close>

lemma table2_inv: "rt_inv table2"
proof -
  have k: "[33::byte] \<noteq> []" by simp
  from put_correct[OF table1_put(2) k, of True 7] obtain r rt' where
    p: "robin_table_put True table1 [33] (length [33::byte]) 7 = Some (r, rt')"
    and i: "rt_inv rt'" by blast
  have "table2 = rt'" using p by (simp add: table2_def table1_def)
  then show ?thesis using i by simp
qed

lemma replicate_update_same: "(replicate n x)[i := x] = replicate n x"
  by (induction n arbitrary: i) (simp_all split: nat.splits)

lemma table2_del_result:
  "robin_table_del True table2 [1] 1 =
     Some (5, table2\<lparr>buckets := (replicate 32 zero_bucket)
        [1 := \<lparr>key = Some [33], val = 7, psl = 0, klen = 1, hash = 33\<rparr>], count := 1\<rparr>)"
  unfolding table2_eq
  by (simp add: robin_table_del_def robin_table_get_bucket_def Let_def first_byte_hash_def
      get_loop_hit key_match_def memcmp_eq_def del_shift_stop_ev del_shift_step_ev
      sz_add_def sz_sub_def zero_bucket_key numeral_2_eq_2[symmetric] list_update_swap
      replicate_update_same)

text \<open>
  Claim C1 (round trip). Let a valid table not hold the key \<open>k\<close>, and let
  \<^verbatim>\<open>robin_table_put\<close> of \<open>k\<close> and \<open>v\<close> return \<open>v\<close>. Then every sequence of well-formed calls
  that do not name \<open>k\<close> and do not clear the table runs to its end, and
  \<^verbatim>\<open>robin_table_get\<close> of \<open>k\<close> returns \<open>v\<close> afterwards.
\<close>

theorem round_trip:
  assumes inv: "rt_inv rt" and k: "k \<noteq> []" and fresh: "contents rt k = None"
    and put: "robin_table_put ok rt k (length k) v = Some (v, rt1)"
    and ops: "\<forall>x\<in>set xs. op_ok x \<and> \<not> touches k x"
  shows "\<exists>obs rt2. run_ops rt1 xs = Some (obs, rt2) \<and>
           robin_table_get rt2 k (length k) = Some v"
proof -
  from put_correct[OF inv k, of ok v] put fresh
  have inv1: "rt_inv rt1"
    and c: "contents rt1 k = Some v \<or> (v = NULL \<and> contents rt1 k = None)"
    by (auto split: if_splits)
  from ops have o1: "\<forall>x\<in>set xs. op_ok x" and o2: "\<forall>x\<in>set xs. \<not> touches k x" by auto
  from run_ops_inv[OF inv1 o1] o2 obtain obs rt2 where
    r: "run_ops rt1 xs = Some (obs, rt2)" and inv2: "rt_inv rt2"
    and c2: "contents rt2 k = contents rt1 k" by blast
  from get_correct[OF rt_inv_core[OF inv2] k] c c2
  have "robin_table_get rt2 k (length k) = Some v" by auto
  with r show ?thesis by blast
qed

text \<open>
  The round trip on a concrete run: key 1 is put with value 5 into the fresh table, key 33
  is put and deleted, key 2 is looked up, and key 1 still yields 5.
\<close>

theorem round_trip_witness:
  "\<exists>obs rt2. run_ops table1 [Put True [33] 1 7, Del True [33] 1, Get [2] 1] = Some (obs, rt2) \<and>
     robin_table_get rt2 [1] 1 = Some 5"
  using round_trip[OF table0_inv _ table0_contents, where k="[1]" and ok=True and v=5
      and ?rt1.0=table1 and xs="[Put True [33] 1 7, Del True [33] 1, Get [2] 1]"]
    table1_put(1)
  by simp

text \<open>
  Claim C2 (no overwrite), amended. Let a valid table bind the key \<open>k\<close> to \<open>v1\<close>. Then
  \<^verbatim>\<open>robin_table_put\<close> of \<open>k\<close> and \<open>v2\<close> returns, the contents of the table are unchanged and
  \<^verbatim>\<open>robin_table_get\<close> of \<open>k\<close> still returns \<open>v1\<close>. The put returns \<open>v1\<close>, also when it first
  grows the table to twice its capacity, unless that growth is needed and its allocation
  fails: then it returns the null marker and the table is as before.
\<close>

theorem no_overwrite:
  assumes inv: "rt_inv rt" and k: "k \<noteq> []" and present: "contents rt k = Some v1"
  shows "\<exists>r rt'. robin_table_put ok rt k (length k) v2 = Some (r, rt') \<and>
           contents rt' = contents rt \<and> robin_table_get rt' k (length k) = Some v1 \<and>
           (if growth_fails ok rt then r = NULL \<and> rt' = rt
            else r = v1 \<and>
              bucket_count rt' =
                (if expand_at rt \<le> count rt then 2 * bucket_count rt else bucket_count rt))"
proof -
  from put_correct[OF inv k, of ok v2] obtain r rt' where
    p: "robin_table_put ok rt k (length k) v2 = Some (r, rt')" and i: "rt_inv rt'"
    and c: "if growth_fails ok rt then r = NULL \<and> rt' = rt
       else r = (case contents rt k of None \<Rightarrow> v2 | Some v1 \<Rightarrow> v1) \<and>
            contents rt' = (case contents rt k of None \<Rightarrow> (contents rt)(k \<mapsto> v2)
                            | Some v1 \<Rightarrow> contents rt) \<and>
            bucket_count rt' =
              (if expand_at rt \<le> count rt then 2 * bucket_count rt else bucket_count rt)"
    unfolding growth_fails_def by blast
  from c present have ct: "contents rt' = contents rt" by (auto split: if_splits)
  from get_correct[OF rt_inv_core[OF i] k] ct present
  have g: "robin_table_get rt' k (length k) = Some v1" by simp
  from c present p ct g show ?thesis by (auto split: if_splits)
qed

text \<open>
  A duplicate put at the growth threshold whose allocation succeeds: the table has 24
  entries and 32 slots, the put of the first key returns the stored 100 and the table has
  64 slots afterwards.
\<close>

theorem no_overwrite_witness:
  "\<exists>rt'. robin_table_put True table24 [0] 1 7 = Some (100, rt') \<and> bucket_count rt' = 64 \<and>
     robin_table_get rt' [0] 1 = Some 100"
proof -
  have ng: "\<not> growth_fails True table24"
    by (simp add: growth_fails_def table24_props calloc_buckets_def sz_mul_def sizeof_bucket_def)
  have k: "[0::byte] \<noteq> []" by simp
  from no_overwrite[OF table24_props(1) k table24_props(5), of True 7] ng
  show ?thesis by (auto simp: table24_props)
qed

text \<open>
  Claim C2 as stated fails: on the same table, a duplicate put of the first key whose
  growth allocation fails returns the null marker, not the stored value 100.
\<close>

theorem duplicate_put_null:
  "contents table24 [0] = Some 100 \<and>
   robin_table_put False table24 [0] 1 7 = Some (NULL, table24) \<and> NULL \<noteq> (100::nat)"
proof -
  have f: "calloc_buckets False (sz_mul (bucket_count table24) 2) = None"
    by (simp add: calloc_buckets_def)
  have "robin_table_put False table24 [0] 1 7 = Some (NULL, table24)"
    by (rule put_grow_fail[OF table24_props(1) _ _ f]) (simp_all add: table24_props)
  then show ?thesis using table24_props(5) by (simp add: NULL_def)
qed

text \<open>
  Claim C3 (deletion completeness). On a valid table \<^verbatim>\<open>robin_table_del\<close> of a key \<open>k\<close>
  returns, and afterwards the table does not hold \<open>k\<close> and \<^verbatim>\<open>robin_table_get\<close> of \<open>k\<close>
  returns the null marker. When the table bound \<open>k\<close> to \<open>v\<close>, the call returns \<open>v\<close> and the
  entry count has dropped by exactly one; when the table did not hold \<open>k\<close>, the call returns
  the null marker and the table, its count included, is unchanged.
\<close>

theorem deletion_complete:
  assumes inv: "rt_inv rt" and k: "k \<noteq> []"
  shows "\<exists>r rt'. robin_table_del ok rt k (length k) = Some (r, rt') \<and>
           contents rt' k = None \<and> robin_table_get rt' k (length k) = Some NULL \<and>
           (case contents rt k of
              None \<Rightarrow> r = NULL \<and> rt' = rt
            | Some v \<Rightarrow> r = v \<and> robin_table_count rt' + 1 = robin_table_count rt)"
proof (cases "contents rt k")
  case None
  from get_correct[OF rt_inv_core[OF inv] k] None
  have "robin_table_get rt k (length k) = Some NULL" by simp
  with del_absent[OF inv k None, of ok] None show ?thesis by simp
next
  case (Some v)
  from del_correct[OF inv k, of ok] Some obtain r rt' where
    d: "robin_table_del ok rt k (length k) = Some (r, rt')" and i: "rt_inv rt'"
    and r: "r = v" and ct: "contents rt' = (contents rt)(k := None)"
    and c: "count rt' = count rt - 1" "0 < count rt" by auto
  from get_correct[OF rt_inv_core[OF i] k] ct
  have "robin_table_get rt' k (length k) = Some NULL" by simp
  with d r ct c Some show ?thesis by (simp add: robin_table_count_def)
qed

text \<open>
  Deleting key 1 from the table that holds only key 1.
\<close>

theorem deletion_complete_witness:
  "\<exists>rt'. robin_table_del True table1 [1] 1 = Some (5, rt') \<and> contents rt' [1] = None \<and>
     robin_table_get rt' [1] 1 = Some NULL \<and>
     robin_table_count rt' + 1 = robin_table_count table1"
proof -
  have k: "[1::byte] \<noteq> []" by simp
  from deletion_complete[OF table1_put(2) k, of True] show ?thesis
    by (auto simp: table1_put(3))
qed

text \<open>
  Claim C4 (PSL invariant). After \<^verbatim>\<open>robin_table_create\<close> and after every call of a sequence
  of well-formed calls of put, get, del and clear (every prefix \<open>take n xs\<close> of the sequence
  runs to its end), every occupied slot at index \<open>i\<close> has
  \<open>psl = (i - (hash AND mask)) mod bucket_count\<close>, where \<open>hash\<close> is the slot's cached hash of its
  key.
\<close>

theorem psl_invariant_holds:
  assumes "robin_table_create ok_rt ok_buckets dflt cnt hf sd = Some rt0"
    and "\<forall>x\<in>set xs. op_ok x"
  shows "\<forall>n. \<exists>obs rt. run_ops rt0 (take n xs) = Some (obs, rt) \<and> psl_invariant rt"
proof
  fix n
  have inv0: "rt_inv rt0" using assms(1) by (rule create_correct(1))
  have "\<forall>x\<in>set (take n xs). op_ok x" using assms(2) by (meson in_set_takeD)
  from run_ops_inv[OF inv0 this] obtain obs rt where
    "run_ops rt0 (take n xs) = Some (obs, rt)" "rt_inv rt" by blast
  then show "\<exists>obs rt. run_ops rt0 (take n xs) = Some (obs, rt) \<and> psl_invariant rt"
    using rt_inv_psl by blast
qed

text \<open>
  Two colliding insertions and a deletion on the fresh table.
\<close>

theorem psl_invariant_witness:
  "\<exists>obs rt. run_ops table0 [Put True [1] 1 5, Put True [33] 1 7, Del True [1] 1] =
      Some (obs, rt) \<and> psl_invariant rt"
  using psl_invariant_holds[OF create0,
      where xs="[Put True [1] 1 5, Put True [33] 1 7, Del True [1] 1]", THEN spec[where x=3]]
  by simp

text \<open>
  Claim C5 (backward-shift deletion), amended. When the lookup of \<^verbatim>\<open>robin_table_del\<close>
  finds the key in slot \<open>b\<close> of a valid table, the shift loop returns, and there is a number
  \<open>m\<close> of moved entries such that: the \<open>m\<close> slots after \<open>b\<close> (with wraparound) are occupied
  with nonzero \<open>psl\<close>; the slot after them is empty or has \<open>psl\<close> 0; each of the \<open>m\<close> entries has
  moved one slot back with its \<open>psl\<close> decremented by one; the slot zeroed is slot \<open>b + m\<close>, the
  slot vacated last, not the slot freed originally; every other slot is unchanged; and the
  entry count is decremented by one.
\<close>

theorem backward_shift:
  assumes inv: "rt_inv rt" and k: "k \<noteq> []"
    and found: "robin_table_get_bucket rt k (length k) = Some (Some b)"
  shows "\<exists>m bs'. m + 1 < bucket_count rt \<and>
      (\<forall>t. 1 \<le> t \<and> t \<le> m \<longrightarrow>
         occupied (buckets rt ! ((b + t) mod bucket_count rt)) \<and>
         0 < psl (buckets rt ! ((b + t) mod bucket_count rt))) \<and>
      (\<not> occupied (buckets rt ! ((b + (m + 1)) mod bucket_count rt)) \<or>
         psl (buckets rt ! ((b + (m + 1)) mod bucket_count rt)) = 0) \<and>
      shifted_by (buckets rt) b m bs' \<and>
      bs' ! ((b + m) mod bucket_count rt) = zero_bucket \<and>
      del_shift rt b b = Some (rt\<lparr>buckets := bs', count := count rt - 1\<rparr>)"
proof -
  from inv have len: "length (buckets rt) = bucket_count rt" by (simp add: rt_inv_def)
  from found get_bucket_correct[OF rt_inv_core[OF inv] k]
  have "find_slot (buckets rt) k = Some b" by simp
  from find_slot_Some[OF this] len
  have b: "b < bucket_count rt" and kb: "key (buckets rt ! b) = Some k" by simp_all
  from del_shift_closed[OF inv b kb] obtain m bs' where
    m: "m + 1 < bucket_count rt"
    and run: "\<forall>t. 1 \<le> t \<and> t \<le> m \<longrightarrow>
         occupied (buckets rt ! ((b + t) mod bucket_count rt)) \<and>
         0 < psl (buckets rt ! ((b + t) mod bucket_count rt))"
    and stop: "\<not> occupied (buckets rt ! ((b + (m + 1)) mod bucket_count rt)) \<or>
         psl (buckets rt ! ((b + (m + 1)) mod bucket_count rt)) = 0"
    and sh: "shifted_by (buckets rt) b m bs'"
    and d: "del_shift rt b b = Some (rt\<lparr>buckets := bs', count := count rt - 1\<rparr>)"
    by blast
  have "m < length (buckets rt)" using m len by simp
  with sh have "bs' ! ((b + m) mod length (buckets rt)) = zero_bucket"
    unfolding shifted_by_def by auto
  then have z: "bs' ! ((b + m) mod bucket_count rt) = zero_bucket" using len by simp
  from m run stop sh z d show ?thesis by blast
qed

text \<open>
  The shift on the table with keys 1 and 33 in slots 1 and 2, deleting key 1.
\<close>

theorem backward_shift_witness:
  "\<exists>m bs'. m + 1 < bucket_count table2 \<and> shifted_by (buckets table2) 1 m bs' \<and>
     bs' ! ((1 + m) mod bucket_count table2) = zero_bucket \<and>
     del_shift table2 1 1 = Some (table2\<lparr>buckets := bs', count := count table2 - 1\<rparr>)"
proof -
  have k: "[1::byte] \<noteq> []" by simp
  have f: "robin_table_get_bucket table2 [1] (length [1::byte]) = Some (Some 1)"
    using table2_find by simp
  from backward_shift[OF table2_inv k f] show ?thesis by blast
qed

text \<open>
  Claim C5 as stated fails: in the table with keys 1 (slot 1, psl 0) and 33 (slot 2, psl 1),
  \<^verbatim>\<open>robin_table_del\<close> finds key 1 in slot 1; afterwards slot 1, the slot freed
  originally, holds key 33 and is not zeroed, and the zeroed slot is slot 2.
\<close>

theorem freed_slot_refilled:
  "robin_table_get_bucket table2 [1] 1 = Some (Some 1) \<and>
   robin_table_del True table2 [1] 1 \<noteq> None \<and>
   key (buckets (snd (the (robin_table_del True table2 [1] 1))) ! 1) = Some [33] \<and>
   buckets (snd (the (robin_table_del True table2 [1] 1))) ! 1 \<noteq> zero_bucket \<and>
   buckets (snd (the (robin_table_del True table2 [1] 1))) ! 2 = zero_bucket"
  unfolding table2_del_result using table2_find by (simp add: zero_bucket_def)

text \<open>
  Claim C6 (capacity floor). After \<^verbatim>\<open>robin_table_create\<close> and after every call of a
  sequence of well-formed calls of put, get, del and clear, the recorded initial capacity is
  the capacity the table was created with and the capacity is not below it.
\<close>

theorem capacity_floor:
  assumes "robin_table_create ok_rt ok_buckets dflt cnt hf sd = Some rt0"
    and "\<forall>x\<in>set xs. op_ok x"
  shows "\<forall>n. \<exists>obs rt. run_ops rt0 (take n xs) = Some (obs, rt) \<and>
           init_buckets rt = bucket_count rt0 \<and> init_buckets rt \<le> bucket_count rt"
proof
  fix n
  have inv0: "rt_inv rt0" using assms(1) by (rule create_correct(1))
  have e: "init_buckets rt0 = bucket_count rt0" using create_correct(4,5)[OF assms(1)] by simp
  have "\<forall>x\<in>set (take n xs). op_ok x" using assms(2) by (meson in_set_takeD)
  from run_ops_inv[OF inv0 this] obtain obs rt where
    r: "run_ops rt0 (take n xs) = Some (obs, rt)" and i: "rt_inv rt"
    and ib: "init_buckets rt = init_buckets rt0" by blast
  from i have "init_buckets rt \<le> bucket_count rt" by (simp add: rt_inv_def)
  with r ib e show "\<exists>obs rt. run_ops rt0 (take n xs) = Some (obs, rt) \<and>
           init_buckets rt = bucket_count rt0 \<and> init_buckets rt \<le> bucket_count rt" by simp
qed

text \<open>
  An insertion, two deletions (one whose shrink allocation would fail) and a clear on the
  fresh table of 32 slots.
\<close>

theorem capacity_floor_witness:
  "\<exists>obs rt. run_ops table0 [Put True [1] 1 5, Del True [1] 1, Del False [7] 1, Clear True True] =
      Some (obs, rt) \<and> init_buckets rt = 32 \<and> 32 \<le> bucket_count rt"
proof -
  from capacity_floor[OF create0,
      where xs="[Put True [1] 1 5, Del True [1] 1, Del False [7] 1, Clear True True]",
      THEN spec[where x=4]]
  obtain obs rt where
    "run_ops table0 [Put True [1] 1 5, Del True [1] 1, Del False [7] 1, Clear True True] =
       Some (obs, rt)"
    "init_buckets rt = bucket_count table0" "init_buckets rt \<le> bucket_count rt"
    by (auto simp del: run_ops.simps)
  then show ?thesis
    by (intro exI[of _ obs] exI[of _ rt]) (simp del: run_ops.simps add: table0_fields)
qed

text \<open>
  Claim C7 (growth-failure atomicity). When \<^verbatim>\<open>robin_table_put\<close> on a valid table has to
  grow (the entry count has reached the growth threshold) and the allocation of the new
  bucket array fails, the call returns the null marker and the table is the table before
  the call, in every field.
\<close>

theorem put_growth_failure_atomic:
  assumes "rt_inv rt" and "n \<noteq> 0" and "growth_fails ok rt"
  shows "robin_table_put ok rt k n v = Some (NULL, rt)"
  using assms put_grow_fail[of rt n ok k v] by (simp add: growth_fails_def)

text \<open>
  A put of a new key into the table at its growth threshold, with a failing allocation.
\<close>

theorem put_growth_failure_witness:
  "robin_table_put False table24 [9] 1 5 = Some (NULL, table24)"
proof -
  have g: "growth_fails False table24"
    by (simp add: growth_fails_def table24_props calloc_buckets_def)
  have n: "(1::nat) \<noteq> 0" by simp
  from put_growth_failure_atomic[OF table24_props(1) n g] show ?thesis .
qed

text \<open>
  Claim C8 (construction capacity), amended. For every expected count \<open>n\<close> such that
  \<open>n * 100\<close> fits \<^verbatim>\<open>size_t\<close>, a table that \<^verbatim>\<open>robin_table_create\<close> returns has
  \<open>target_capacity n\<close> slots: 32 when the ceiling of \<open>n * 100 / 75\<close> is below 32, and the next
  power of two not below that ceiling otherwise.
\<close>

theorem construction_capacity:
  assumes "n * 100 < 2 ^ 64"
    and "robin_table_create ok_rt ok_buckets dflt n hf sd = Some rt"
  shows "bucket_count rt = target_capacity n \<and> length (buckets rt) = target_capacity n"
  using create_correct(4,6)[OF assms(2)] calc_eq_target[OF assms(1)] by simp

text \<open>
  \<^verbatim>\<open>robin_table_create(0, ..)\<close> yields 32 slots.
\<close>

theorem construction_capacity_witness:
  "bucket_count table0 = target_capacity 0 \<and> length (buckets table0) = target_capacity 0 \<and>
   target_capacity 0 = 32"
  using construction_capacity[OF _ create0] by (simp add: target_capacity_def)

text \<open>
  Claim C8 as stated fails for a count whose hundredfold does not fit \<^verbatim>\<open>size_t\<close>: for
  \<open>n = 184467440737095517\<close> the product \<open>n * 100\<close> wraps to 84, the code allocates 32 slots,
  and the target capacity of the specification is \<open>2 ^ 58 = 288230376151711744\<close>.
\<close>

theorem create_count_overflow:
  "robin_table_create True True first_byte_hash 184467440737095517 None 0 \<noteq> None \<and>
   bucket_count (the (robin_table_create True True first_byte_hash 184467440737095517 None 0))
     = 32 \<and>
   target_capacity 184467440737095517 = 288230376151711744"
proof -
  have c: "robin_table_calc_bucket_count 184467440737095517 = 32"
    by (simp add: robin_table_calc_bucket_count_def sz_mul_def RT_LOAD_FACTOR_PCT_MAX_def
        RT_BUCKET_COUNT_MIN_def Let_def)
  have p: "is_pow2 288230376151711744" unfolding is_pow2_def by (rule exI[of _ 58]) simp
  have "next_pow2_ge 245956587649460690 = 288230376151711744"
    by (rule next_pow2_ge_eqI[OF p]) simp_all
  then have t: "target_capacity 184467440737095517 = 288230376151711744"
    by (simp add: target_capacity_def Let_def)
  show ?thesis using t
    by (simp add: robin_table_create_def c calloc_buckets_def sizeof_bucket_def Let_def)
qed

text \<open>
  Claim C9 (hash-strategy substitutability). Two tables created for the same expected count
  with any two hash functions and seeds, run on the same sequence of well-formed calls
  with the same allocation outcomes, both run to the end and yield the same list of
  observations: what each call returned and the entry count after it.
\<close>

theorem hash_substitutable:
  assumes a: "robin_table_create ok_rt ok_buckets d1 cnt hf1 sd1 = Some a"
    and b: "robin_table_create ok_rt' ok_buckets' d2 cnt hf2 sd2 = Some b"
    and ops: "\<forall>x\<in>set xs. op_ok x"
  shows "\<exists>obs a' b'. run_ops a xs = Some (obs, a') \<and> run_ops b xs = Some (obs, b')"
proof -
  have "sim a b" unfolding sim_def
    using create_correct(1,2,4,5)[OF a] create_correct(1,2,4,5)[OF b] by simp
  from run_ops_sim[OF this ops] show ?thesis by blast
qed

text \<open>
  The same five calls on a table hashing by the first byte (seed 0) and on a table whose
  hash is constantly 0 (seed 7), where every key collides.
\<close>

theorem hash_substitutable_witness:
  "\<exists>obs a' b'.
     run_ops table0 [Put True [1] 1 5, Put True [33] 1 7, Get [33] 1, Del True [1] 1, Get [1] 1]
       = Some (obs, a') \<and>
     run_ops tableZ [Put True [1] 1 5, Put True [33] 1 7, Get [33] 1, Del True [1] 1, Get [1] 1]
       = Some (obs, b')"
  using hash_substitutable[OF create0 createZ,
      where xs="[Put True [1] 1 5, Put True [33] 1 7, Get [33] 1, Del True [1] 1, Get [1] 1]"]
  by simp

text \<open>
  Claim C10 (null-value ambiguity). On a valid table \<^verbatim>\<open>robin_table_put\<close> returns the null
  marker when the required growth fails, when it inserts a null value for a new key, and
  when it finds the key bound to a null value; \<^verbatim>\<open>robin_table_get\<close> returns the null
  marker when the key is absent and when the key is bound to a null value.
\<close>

theorem null_ambiguity:
  assumes inv: "rt_inv rt" and k: "k \<noteq> []"
  shows "(growth_fails ok rt \<longrightarrow> robin_table_put ok rt k (length k) v = Some (NULL, rt)) \<and>
    (\<not> growth_fails ok rt \<and> contents rt k = None \<longrightarrow>
       (\<exists>rt'. robin_table_put ok rt k (length k) NULL = Some (NULL, rt') \<and> rt_inv rt' \<and>
              contents rt' k = Some NULL)) \<and>
    (\<not> growth_fails ok rt \<and> contents rt k = Some NULL \<longrightarrow>
       (\<exists>rt'. robin_table_put ok rt k (length k) v = Some (NULL, rt') \<and>
              contents rt' = contents rt)) \<and>
    (contents rt k = None \<longrightarrow> robin_table_get rt k (length k) = Some NULL) \<and>
    (contents rt k = Some NULL \<longrightarrow> robin_table_get rt k (length k) = Some NULL)"
proof (intro conjI impI)
  assume "growth_fails ok rt"
  then show "robin_table_put ok rt k (length k) v = Some (NULL, rt)"
    using put_grow_fail[OF inv, of "length k" ok k v] k by (simp add: growth_fails_def)
next
  assume a: "\<not> growth_fails ok rt \<and> contents rt k = None"
  with put_correct[OF inv k, of ok NULL]
  show "\<exists>rt'. robin_table_put ok rt k (length k) NULL = Some (NULL, rt') \<and> rt_inv rt' \<and>
              contents rt' k = Some NULL"
    unfolding growth_fails_def by auto
next
  assume a: "\<not> growth_fails ok rt \<and> contents rt k = Some NULL"
  with put_correct[OF inv k, of ok v]
  show "\<exists>rt'. robin_table_put ok rt k (length k) v = Some (NULL, rt') \<and>
              contents rt' = contents rt"
    unfolding growth_fails_def by auto
next
  assume "contents rt k = None"
  with get_correct[OF rt_inv_core[OF inv] k]
  show "robin_table_get rt k (length k) = Some NULL" by simp
next
  assume "contents rt k = Some NULL"
  with get_correct[OF rt_inv_core[OF inv] k]
  show "robin_table_get rt k (length k) = Some NULL" by simp
qed

text \<open>
  The ambiguity on concrete inputs: a put that inserts the null value into the fresh table
  and a put whose growth fails both return the null marker; a lookup of the absent key 1
  in the fresh table and a lookup of key 1 bound to the null value both return it too.
\<close>

theorem null_ambiguity_witness:
  "(\<exists>rt'. robin_table_put True table0 [1] 1 NULL = Some (NULL, rt') \<and>
          contents rt' [1] = Some NULL \<and> robin_table_get rt' [1] 1 = Some NULL) \<and>
   contents table0 [1] = None \<and> robin_table_get table0 [1] 1 = Some NULL \<and>
   contents table24 [9] = None \<and>
   robin_table_put False table24 [9] 1 NULL = Some (NULL, table24)"
proof -
  have k1: "[1::byte] \<noteq> []" and k9: "[9::byte] \<noteq> []" by simp_all
  note a = null_ambiguity[OF table0_inv k1, where ok=True and v=NULL]
  have ng: "\<not> growth_fails True table0" by (simp add: growth_fails_def table0_fields)
  from a table0_contents have g0: "robin_table_get table0 [1] 1 = Some NULL" by simp
  from a ng table0_contents obtain rt' where
    p: "robin_table_put True table0 [1] 1 NULL = Some (NULL, rt')" and i: "rt_inv rt'"
    and c: "contents rt' [1] = Some NULL" by auto
  from null_ambiguity[OF i k1, where ok=True and v=NULL] c
  have g1: "robin_table_get rt' [1] 1 = Some NULL" by simp
  have gf: "growth_fails False table24"
    by (simp add: growth_fails_def table24_props calloc_buckets_def)
  from null_ambiguity[OF table24_props(1) k9, where ok=False and v=NULL] gf
  have f: "robin_table_put False table24 [9] 1 NULL = Some (NULL, table24)" by simp
  from p c g1 g0 f table0_contents table24_props(6) show ?thesis by blast
qed

end
